theory Spec2Isabelle
  imports Complex_Main "HOL-Library.AList"
begin

section \<open>Values, errors and the libraries outside the repository\<close>

text \<open>
  The seeder is TypeScript; what it computes with are JavaScript values. Numbers are finite
  rationals here (a decimal with a fixed number of fraction digits is one), a \<^verbatim>\<open>Date\<close> is
  identified with its ISO-8601 rendering and a \<^verbatim>\<open>Buffer\<close> with its bytes.
\<close>

datatype jsval =
    Null
  | Undefined
  | Str string
  | Num rat
  | Bool bool
  | DateV string
  | BufferV string
  | Arr "jsval list"
  | Obj "(string \<times> jsval) list"

text \<open>
  Every \<^verbatim>\<open>throw new Error(...)\<close> of the sources is a constructor; the payload is what the
  message names.
\<close>

datatype error =
    CycleDetected "string list"
      \<comment> \<open>utils.ts, topologicalSort: the tables joined into the message\<close>
  | FkPoolEmptyForTable string string string string "string list"
      \<comment> \<open>validateForeignKeyPools: table schema, table name, refSchema, refTable, fk columns\<close>
  | FkPoolEmptyForColumn string string string
      \<comment> \<open>buildRowValues: table name, column name, refTable\<close>
  | UniqueExhausted string string "string list"
      \<comment> \<open>buildRowValues: table schema, table name, constraint names\<close>
  | InvalidFakerOverride string
      \<comment> \<open>generateValue: the override path\<close>

text \<open>
  The random source behind \<^verbatim>\<open>faker\<close> is an infinite sequence of naturals and the number
  of draws made so far; a draw reads the next one. \<^verbatim>\<open>faker.number.int({min, max})\<close> returns
  an integer of the closed range and \<^verbatim>\<open>faker.number.float({min, max, fractionDigits})\<close>
  a multiple of ten to the power minus \<^verbatim>\<open>fractionDigits\<close> of the closed range: the
  library's contract, every value of the range being reachable. Callers never pass an
  empty range.
\<close>

datatype rng = Rng "nat \<Rightarrow> nat" nat

definition draw :: "rng \<Rightarrow> nat \<times> rng" where
  "draw g = (case g of Rng f i \<Rightarrow> (f i, Rng f (Suc i)))"

definition number_int :: "int \<Rightarrow> int \<Rightarrow> rng \<Rightarrow> int \<times> rng" where
  "number_int lo hi g = (let (r, g') = draw g in (lo + int (r mod nat (hi - lo + 1)), g'))"

definition number_float :: "int \<Rightarrow> int \<Rightarrow> nat \<Rightarrow> rng \<Rightarrow> rat \<times> rng" where
  "number_float lo hi fractionDigits g =
     (let factor = 10 ^ fractionDigits;
          (n, g') = number_int (lo * factor) (hi * factor) g
      in (of_int n / of_int factor, g'))"

definition datatype_boolean :: "rng \<Rightarrow> bool \<times> rng" where
  "datatype_boolean g = (let (r, g') = draw g in (odd r, g'))"

definition helpers_arrayElement :: "'a list \<Rightarrow> rng \<Rightarrow> 'a \<times> rng" where
  "helpers_arrayElement xs g =
     (let (i, g') = number_int 0 (int (length xs) - 1) g in (xs ! nat i, g'))"

text \<open>
  The rest of the faker library is a parameter of the model: its text producers by the
  path the source calls (\<^verbatim>\<open>faker.internet.email()\<close> is \<open>text_of lib ''internet.email''\<close>),
  its date producers, and the object tree that an override path is resolved against.
\<close>

datatype jsobj =
    JFunction "rng \<Rightarrow> jsval \<times> rng"
  | JObject "(string \<times> jsobj) list"
  | JOther

record jsdate =
  toISOString :: string
  getHours :: nat
  getMinutes :: nat
  getSeconds :: nat

record faker_lib =
  text_of :: "string \<Rightarrow> rng \<Rightarrow> string \<times> rng"
  date_of :: "string \<Rightarrow> rng \<Rightarrow> jsdate \<times> rng"
  faker_object :: jsobj

text \<open>
  Two renderers of the host language are parameters as well: \<^verbatim>\<open>String(n)\<close> on a number
  and \<^verbatim>\<open>JSON.stringify\<close>.
\<close>

record js_host =
  String_of_number :: "rat \<Rightarrow> string"
  JSON_stringify :: "jsval \<Rightarrow> string"

text \<open>
  A JavaScript \<^verbatim>\<open>Map\<close> iterates in insertion order and \<^verbatim>\<open>set\<close> on a present key keeps the
  key's position: an association list with \<^const>\<open>AList.update\<close>. A \<^verbatim>\<open>Set\<close> is the list
  of its members in insertion order. Reading an array out of range gives \<^verbatim>\<open>undefined\<close>.
\<close>

definition map_has :: "('k \<times> 'v) list \<Rightarrow> 'k \<Rightarrow> bool" where
  "map_has m k = (map_of m k \<noteq> None)"

definition Map_of_entries :: "('k \<times> 'v) list \<Rightarrow> ('k \<times> 'v) list" where
  \<comment> \<open>\<^verbatim>\<open>new Map(entries)\<close>\<close>
  "Map_of_entries entries = fold (\<lambda>entry m. AList.update (fst entry) (snd entry) m) entries []"

definition Set_of :: "'a list \<Rightarrow> 'a list" where
  \<comment> \<open>\<^verbatim>\<open>[...new Set(xs)]\<close>: first occurrences, in order\<close>
  "Set_of xs = fold (\<lambda>x acc. if x \<in> set acc then acc else acc @ [x]) xs []"

definition array_get :: "jsval list \<Rightarrow> nat \<Rightarrow> jsval" where
  "array_get xs i = (if i < length xs then xs ! i else Undefined)"

definition indexOf :: "'a list \<Rightarrow> 'a \<Rightarrow> nat" where
  \<comment> \<open>\<^verbatim>\<open>xs.indexOf(x)\<close> for a member; \<open>length xs\<close>, out of range like \<open>-1\<close>, otherwise\<close>
  "indexOf xs x = length (takeWhile (\<lambda>y. y \<noteq> x) xs)"

fun join :: "string \<Rightarrow> string list \<Rightarrow> string" where
  "join sep [] = []"
| "join sep [x] = x"
| "join sep (x # y # ys) = x @ sep @ join sep (y # ys)"

fun startsWith :: "string \<Rightarrow> string \<Rightarrow> bool" where
  "startsWith s [] = True"
| "startsWith [] (c # p) = False"
| "startsWith (x # s) (c # p) = (x = c \<and> startsWith s p)"

fun str_includes :: "string \<Rightarrow> string \<Rightarrow> bool" where
  "str_includes [] p = (p = [])"
| "str_includes (x # s) p = (startsWith (x # s) p \<or> str_includes s p)"

definition lower_char :: "char \<Rightarrow> char" where
  "lower_char c =
     (let n = (of_char c :: nat) in if 65 \<le> n \<and> n \<le> 90 then char_of (n + 32) else c)"

definition toLowerCase :: "string \<Rightarrow> string" where
  "toLowerCase s = map lower_char s"

definition digit_char :: "nat \<Rightarrow> char" where
  "digit_char d = char_of (48 + d)"

function String_nat :: "nat \<Rightarrow> string" where
  "String_nat n = (if n < 10 then [digit_char n] else String_nat (n div 10) @ [digit_char (n mod 10)])"
  by pat_completeness auto
termination
  by (relation "measure id") auto

definition padStart2 :: "string \<Rightarrow> string" where
  \<comment> \<open>\<^verbatim>\<open>s.padStart(2, '0')\<close>\<close>
  "padStart2 s = replicate (2 - length s) CHR ''0'' @ s"

fun split_dot :: "string \<Rightarrow> string list" where
  \<comment> \<open>\<^verbatim>\<open>path.split('.')\<close>\<close>
  "split_dot [] = [[]]"
| "split_dot (c # cs) =
     (if c = CHR ''.'' then [] # split_dot cs
      else (case split_dot cs of seg # segs \<Rightarrow> (c # seg) # segs | [] \<Rightarrow> [[c]]))"

definition to_hex :: "string \<Rightarrow> string" where
  \<comment> \<open>\<^verbatim>\<open>buffer.toString('hex')\<close>\<close>
  "to_hex bytes =
     concat (map (\<lambda>c. let n = (of_char c :: nat);
                          digit = (\<lambda>d. if d < 10 then char_of (48 + d) else char_of (87 + d))
                      in [digit (n div 16), digit (n mod 16)]) bytes)"

section \<open>The schema model (types.ts)\<close>

text \<open>
  The descriptors of types.ts as records. Where two of them share a field name
  (\<^verbatim>\<open>name\<close>, \<^verbatim>\<open>columns\<close>, \<^verbatim>\<open>schema\<close>) the field carries its owner as a prefix.
  \<^verbatim>\<open>Config\<close> keeps the fields the seeder core reads.
\<close>

record ColumnInfo =
  column_name :: string
  dataType :: string
  udtName :: string
  isNullable :: bool
  columnDefault :: "string option"
  isIdentity :: bool
  isGenerated :: bool
  maxLength :: "int option"
  numericPrecision :: "int option"
  numericScale :: "int option"

record ForeignKeyInfo =
  fk_columns :: "string list"
  refSchema :: string
  refTable :: string
  refColumns :: "string list"

record UniqueConstraintInfo =
  constraint_name :: string
  constraint_columns :: "string list"

record TableInfo =
  table_schema :: string
  table_name :: string
  table_columns :: "ColumnInfo list"
  pkColumns :: "string list"
  fks :: "ForeignKeyInfo list"
  uniqueConstraints :: "UniqueConstraintInfo list"

record OverrideSpec =
  faker :: "string option"
  ovalues :: "jsval list option"

record Config =
  maxRecords :: rat
  seed :: rat
  dryRun :: bool
  overrides :: "(string \<times> OverrideSpec) list option"

type_synonym EnumMap = "(string \<times> string list) list"

section \<open>utils.ts\<close>

definition quoteIdent :: "string \<Rightarrow> string" where
  "quoteIdent v =
     [CHR 0x22] @ concat (map (\<lambda>c. if c = CHR 0x22 then [c, c] else [c]) v) @ [CHR 0x22]"

subsection \<open>topologicalSort\<close>

type_synonym edge_map = "(string \<times> string list) list"
type_synonym degree_map = "(string \<times> int) list"

definition degree_or_zero :: "degree_map \<Rightarrow> string \<Rightarrow> int" where
  \<comment> \<open>\<^verbatim>\<open>inDegree.get(to) ?? 0\<close>\<close>
  "degree_or_zero inDegree to = (case map_of inDegree to of Some d \<Rightarrow> d | None \<Rightarrow> 0)"

definition count_edge :: "string \<Rightarrow> degree_map \<Rightarrow> degree_map" where
  \<comment> \<open>body of the inner loop, lines 43 to 46\<close>
  "count_edge to inDegree =
     (if \<not> map_has inDegree to then inDegree
      else AList.update to (degree_or_zero inDegree to + 1) inDegree)"

definition count_entry :: "string \<times> string list \<Rightarrow> degree_map \<Rightarrow> degree_map" where
  \<comment> \<open>body of the loop over \<^verbatim>\<open>edges.entries()\<close>, lines 41 to 47\<close>
  "count_entry entry inDegree =
     (if \<not> map_has inDegree (fst entry) then inDegree
      else fold count_edge (snd entry) inDegree)"

definition init_degrees :: "string list \<Rightarrow> edge_map \<Rightarrow> degree_map" where
  \<comment> \<open>lines 37 to 47\<close>
  "init_degrees nodes edges =
     fold count_entry edges (fold (\<lambda>node m. AList.update node 0 m) nodes [])"

definition initial_queue :: "degree_map \<Rightarrow> string list" where
  \<comment> \<open>lines 49 to 52\<close>
  "initial_queue inDegree = map fst (filter (\<lambda>entry. snd entry = 0) inDegree)"

fun relax :: "string \<Rightarrow> degree_map \<times> string list \<Rightarrow> degree_map \<times> string list" where
  \<comment> \<open>body of the loop over the children of a placed node, lines 61 to 66\<close>
  "relax to (inDegree, queue) =
     (if \<not> map_has inDegree to then (inDegree, queue)
      else
        let next = degree_or_zero inDegree to - 1;
            inDegree' = AList.update to next inDegree
        in (inDegree', if next = 0 then queue @ [to] else queue))"

text \<open>
  The \<^verbatim>\<open>while\<close> loop of lines 55 to 67. \<^verbatim>\<open>if (!node) break\<close> leaves the loop on the empty
  string as well as on \<^verbatim>\<open>undefined\<close>. The loop ends because every pass takes one node off
  the queue and a node is pushed only when its degree falls from one to zero.
\<close>

definition positive_entries :: "degree_map \<Rightarrow> nat" where
  "positive_entries inDegree = length (filter (\<lambda>entry. 0 < snd entry) inDegree)"

lemma positive_entries_update:
  "map_of inDegree k = Some d \<Longrightarrow>
   positive_entries (AList.update k (d - 1) inDegree) + (if d = 1 then 1 else 0)
     \<le> positive_entries inDegree"
  unfolding positive_entries_def
  by (induction inDegree) (auto split: if_splits)

lemma relax_measure:
  "relax to (inDegree, queue) = (inDegree', queue') \<Longrightarrow>
   length queue' + positive_entries inDegree' \<le> length queue + positive_entries inDegree"
proof (cases "map_of inDegree to")
  case None
  assume "relax to (inDegree, queue) = (inDegree', queue')"
  with None show ?thesis by (simp add: map_has_def)
next
  case (Some d)
  assume r: "relax to (inDegree, queue) = (inDegree', queue')"
  from positive_entries_update [OF Some] r Some show ?thesis
    by (auto simp: map_has_def degree_or_zero_def Let_def split: if_splits)
qed

lemma fold_relax_measure:
  "fold relax tos (inDegree, queue) = (inDegree', queue') \<Longrightarrow>
   length queue' + positive_entries inDegree' \<le> length queue + positive_entries inDegree"
proof (induction tos arbitrary: inDegree queue)
  case Nil
  then show ?case by simp
next
  case (Cons t ts)
  obtain d1 q1 where r: "relax t (inDegree, queue) = (d1, q1)"
    by (cases "relax t (inDegree, queue)")
  with Cons.prems have "fold relax ts (d1, q1) = (inDegree', queue')" by simp
  from Cons.IH [OF this] relax_measure [OF r] show ?case by linarith
qed

function kahn_loop :: "edge_map \<Rightarrow> string list \<Rightarrow> degree_map \<Rightarrow> string list \<Rightarrow> string list" where
  "kahn_loop edges [] inDegree result = result"
| "kahn_loop edges (node # queue) inDegree result =
     (if node = [] then result
      else
        (case map_of edges node of
           None \<Rightarrow> kahn_loop edges queue inDegree (result @ [node])
         | Some tos \<Rightarrow>
             kahn_loop edges (snd (fold relax tos (inDegree, queue)))
               (fst (fold relax tos (inDegree, queue))) (result @ [node])))"
  by pat_completeness auto
termination
proof (relation "measure (\<lambda>(edges, queue, inDegree, result). length queue + positive_entries inDegree)")
  show "wf (measure (\<lambda>(edges, queue, inDegree, result). length queue + positive_entries inDegree))"
    by simp
next
  fix edges :: edge_map and node queue inDegree and result :: "string list"
  show "((edges, queue, inDegree, result @ [node]), (edges, node # queue, inDegree, result))
        \<in> measure (\<lambda>(edges, queue, inDegree, result). length queue + positive_entries inDegree)"
    by simp
next
  fix edges :: edge_map and node queue inDegree tos and result :: "string list"
  have "length (snd (fold relax tos (inDegree, queue)))
          + positive_entries (fst (fold relax tos (inDegree, queue)))
        \<le> length queue + positive_entries inDegree"
    using fold_relax_measure [of tos inDegree queue] by (cases "fold relax tos (inDegree, queue)") simp
  then show "((edges, snd (fold relax tos (inDegree, queue)), fst (fold relax tos (inDegree, queue)),
           result @ [node]), (edges, node # queue, inDegree, result))
        \<in> measure (\<lambda>(edges, queue, inDegree, result). length queue + positive_entries inDegree)"
    by simp
qed

definition placed_tables :: "string list \<Rightarrow> edge_map \<Rightarrow> string list" where
  \<comment> \<open>the value of \<^verbatim>\<open>result\<close> when the loop is left, line 68\<close>
  "placed_tables nodes edges =
     kahn_loop edges (initial_queue (init_degrees nodes edges)) (init_degrees nodes edges) []"

definition topologicalSort :: "string list \<Rightarrow> edge_map \<Rightarrow> error + string list" where
  "topologicalSort nodes edges =
     (let result = placed_tables nodes edges
      in if length result \<noteq> length nodes
         then Inl (CycleDetected (filter (\<lambda>node. node \<notin> set result) nodes))
         else Inr result)"

section \<open>generate.ts\<close>

definition NAME_HINTS :: "(string list \<times> string) list" where
  \<comment> \<open>each regular expression is an alternation of plain substrings; the second component
      names the producer\<close>
  "NAME_HINTS =
     [([''email''], ''internet.email''),
      ([''first_name'', ''firstname'', ''given_name''], ''person.firstName''),
      ([''last_name'', ''lastname'', ''family_name'', ''surname''], ''person.lastName''),
      ([''full_name'', ''name''], ''person.fullName''),
      ([''username'', ''user_name'', ''login''], ''internet.userName''),
      ([''phone'', ''phone_number'', ''mobile''], ''phone.number''),
      ([''address''], ''location.streetAddress''),
      ([''city''], ''location.city''),
      ([''state'', ''province'', ''region''], ''location.state''),
      ([''zip'', ''postal''], ''location.zipCode''),
      ([''country''], ''location.country''),
      ([''company'', ''org'', ''organization''], ''company.name''),
      ([''title''], ''lorem.sentence''),
      ([''description'', ''bio'', ''notes'', ''summary''], ''lorem.paragraph''),
      ([''url'', ''website''], ''internet.url''),
      ([''slug''], ''helpers.slugify'')]"

definition randomFromArray :: "'a list \<Rightarrow> rng \<Rightarrow> 'a \<times> rng" where
  "randomFromArray vals g =
     (let (i, g') = number_int 0 (int (length vals) - 1) g in (vals ! nat i, g'))"

definition pattern_test :: "string list \<Rightarrow> string \<Rightarrow> bool" where
  \<comment> \<open>\<^verbatim>\<open>pattern.test(normalized)\<close>\<close>
  "pattern_test alternatives s = (\<exists>a \<in> set alternatives. str_includes s a)"

definition generateFromHints :: "faker_lib \<Rightarrow> string \<Rightarrow> rng \<Rightarrow> string option \<times> rng" where
  "generateFromHints lib columnName g =
     (let normalized = toLowerCase columnName
      in case find (\<lambda>hint. pattern_test (fst hint) normalized) NAME_HINTS of
           Some hint \<Rightarrow> (let (s, g') = text_of lib (snd hint) g in (Some s, g'))
         | None \<Rightarrow> (None, g))"

definition clampString :: "string \<Rightarrow> int option \<Rightarrow> string" where
  "clampString v maxLen =
     (case maxLen of
        None \<Rightarrow> v
      | Some m \<Rightarrow>
          if m = 0 then v
          else if int (length v) \<le> m then v
          else take (nat (max 1 m)) v)"

definition formatTime :: "jsdate \<Rightarrow> string" where
  "formatTime date =
     (let hh = padStart2 (String_nat (getHours date));
          mm = padStart2 (String_nat (getMinutes date));
          ss = padStart2 (String_nat (getSeconds date))
      in hh @ '':'' @ mm @ '':'' @ ss)"

definition udtToDataType :: "string \<Rightarrow> string" where
  "udtToDataType u =
     (if u = ''int2'' then ''smallint''
      else if u = ''int4'' then ''integer''
      else if u = ''int8'' then ''bigint''
      else if u = ''varchar'' then ''character varying''
      else if u = ''text'' then ''text''
      else if u = ''bool'' then ''boolean''
      else if u = ''float4'' then ''real''
      else if u = ''float8'' then ''double precision''
      else if u = ''numeric'' then ''numeric''
      else if u = ''date'' then ''date''
      else if u = ''timestamp'' then ''timestamp''
      else if u = ''timestamptz'' then ''timestamp with time zone''
      else if u = ''uuid'' then ''uuid''
      else if u = ''json'' then ''json''
      else if u = ''jsonb'' then ''jsonb''
      else if u = ''inet'' then ''inet''
      else u)"

fun resolve_segments :: "jsobj \<Rightarrow> string list \<Rightarrow> jsobj option" where
  \<comment> \<open>the loop of resolveFakerPath; \<open>None\<close> is \<^verbatim>\<open>undefined\<close>\<close>
  "resolve_segments current [] = Some current"
| "resolve_segments current (segment # segments) =
     (case current of
        JObject props \<Rightarrow>
          (case map_of props segment of
             None \<Rightarrow> None
           | Some v \<Rightarrow> resolve_segments v segments)
      | _ \<Rightarrow> None)"

definition resolveFakerPath :: "faker_lib \<Rightarrow> string \<Rightarrow> jsobj option" where
  "resolveFakerPath lib path =
     resolve_segments (faker_object lib) (filter (\<lambda>s. s \<noteq> []) (split_dot path))"

definition decimal_max :: "int \<Rightarrow> int \<Rightarrow> int" where
  \<comment> \<open>\<^verbatim>\<open>Math.pow(10, Math.max(1, precision - scale)) - 1\<close>, line 164; an exact integer
      here, the source's double up to 15 digits (beyond them the double is rounded, and
      infinite from the exponent 309)\<close>
  "decimal_max precision scale = 10 ^ nat (max 1 (precision - scale)) - 1"

definition generateDecimal :: "ColumnInfo \<Rightarrow> rng \<Rightarrow> jsval \<times> rng" where
  \<comment> \<open>the branch of lines 161 to 166, for a scale that is not negative; for a negative
      \<^verbatim>\<open>fractionDigits\<close> the library throws, where this takes no fraction digit\<close>
  "generateDecimal column g =
     (let precision = (case numericPrecision column of Some p \<Rightarrow> p | None \<Rightarrow> 8);
          scale = (case numericScale column of Some s \<Rightarrow> s | None \<Rightarrow> 2);
          mx = decimal_max precision scale;
          (v, g') = number_float 0 mx (nat scale) g
      in (Num v, g'))"

definition lookup_enum :: "EnumMap \<Rightarrow> string \<Rightarrow> string list option" where
  \<comment> \<open>\<^verbatim>\<open>enums.get(udtName) ?? enums.get(`public.${udtName}`)\<close>\<close>
  "lookup_enum enums udt =
     (case map_of enums udt of
        Some labels \<Rightarrow> Some labels
      | None \<Rightarrow> map_of enums (''public.'' @ udt))"

definition possible_labels :: "EnumMap \<Rightarrow> string \<Rightarrow> string list" where
  \<comment> \<open>lines 133 to 135; the empty list when the test of line 135 fails\<close>
  "possible_labels enums udt =
     (if enums = [] then []
      else case lookup_enum enums udt of None \<Rightarrow> [] | Some labels \<Rightarrow> labels)"

definition override_values :: "OverrideSpec option \<Rightarrow> jsval list" where
  \<comment> \<open>\<^verbatim>\<open>override?.values\<close>, the empty list when absent\<close>
  "override_values override =
     (case override of
        None \<Rightarrow> []
      | Some ov \<Rightarrow> (case ovalues ov of None \<Rightarrow> [] | Some vs \<Rightarrow> vs))"

definition override_faker :: "OverrideSpec option \<Rightarrow> string" where
  \<comment> \<open>\<^verbatim>\<open>override?.faker\<close>, the empty string when absent\<close>
  "override_faker override =
     (case override of
        None \<Rightarrow> []
      | Some ov \<Rightarrow> (case faker ov of None \<Rightarrow> [] | Some path \<Rightarrow> path))"

definition generateByType :: "faker_lib \<Rightarrow> ColumnInfo \<Rightarrow> string \<Rightarrow> rng \<Rightarrow> jsval \<times> rng" where
  \<comment> \<open>lines 149 to 201, on the lower-cased data type\<close>
  "generateByType lib column dataType' g =
     (if str_includes dataType' ''uuid'' then
        (let (s, g') = text_of lib ''string.uuid'' g in (Str s, g'))
      else if str_includes dataType' ''boolean'' then
        (let (b, g') = datatype_boolean g in (Bool b, g'))
      else if str_includes dataType' ''integer'' \<or> str_includes dataType' ''bigint''
              \<or> str_includes dataType' ''smallint'' then
        (let (n, g') = number_int 1 10000 g in (Num (of_int n), g'))
      else if str_includes dataType' ''numeric'' \<or> str_includes dataType' ''decimal'' then
        generateDecimal column g
      else if str_includes dataType' ''real'' \<or> str_includes dataType' ''double'' then
        (let (v, g') = number_float 0 10000 4 g in (Num v, g'))
      else if str_includes dataType' ''timestamp'' then
        (let (d, g') = date_of lib ''date.past'' g in (Str (toISOString d), g'))
      else if str_includes dataType' ''date'' then
        (let (d, g') = date_of lib ''date.past'' g in (Str (take 10 (toISOString d)), g'))
      else if str_includes dataType' ''time'' then
        (let (d, g') = date_of lib ''date.recent'' g in (Str (formatTime d), g'))
      else if str_includes dataType' ''json'' then
        (let (i, g1) = text_of lib ''string.uuid'' g;
             (l, g2) = text_of lib ''lorem.word'' g1;
             (d, g3) = date_of lib ''date.recent'' g2
         in (Obj [(''id'', Str i), (''label'', Str l), (''createdAt'', Str (toISOString d))], g3))
      else if str_includes dataType' ''bytea'' then
        (let (s, g') = text_of lib ''string.alphanumeric'' g in (BufferV s, g'))
      else if str_includes dataType' ''character'' \<or> str_includes dataType' ''text'' then
        (let (s, g') = text_of lib ''lorem.words'' g in (Str (clampString s (maxLength column)), g'))
      else
        (let (s, g') = text_of lib ''lorem.word'' g in (Str (clampString s (maxLength column)), g')))"

lemma startsWith_nonempty: "startsWith s (c # p) \<Longrightarrow> s \<noteq> []"
  by (cases s) simp_all

lemma length_toLowerCase: "length (toLowerCase s) = length s"
  by (simp add: toLowerCase_def)

lemma toLowerCase_Nil_iff: "toLowerCase s = [] \<longleftrightarrow> s = []"
  by (simp add: toLowerCase_def)

text \<open>
  \<^verbatim>\<open>generateValue\<close> calls itself for the elements of an array type, on the type name
  without its leading underscore; \<open>generate_elements\<close> is the callback of \<^verbatim>\<open>Array.from\<close>
  run \<open>n\<close> times.
\<close>

function generateValue ::
    "faker_lib \<Rightarrow> ColumnInfo \<Rightarrow> EnumMap \<Rightarrow> OverrideSpec option \<Rightarrow> rng \<Rightarrow> (error + jsval) \<times> rng"
  and generate_elements ::
    "faker_lib \<Rightarrow> nat \<Rightarrow> ColumnInfo \<Rightarrow> EnumMap \<Rightarrow> rng \<Rightarrow> (error + jsval list) \<times> rng"
where
  "generateValue lib column enums override g =
     (if override_values override \<noteq> [] then
        (let (r, g') = randomFromArray (override_values override) g in (Inr r, g'))
      else if override_faker override \<noteq> [] then
        (case resolveFakerPath lib (override_faker override) of
           Some (JFunction f) \<Rightarrow> (let (r, g') = f g in (Inr r, g'))
         | _ \<Rightarrow> (Inl (InvalidFakerOverride (override_faker override)), g))
      else
        (let dataType' = toLowerCase (dataType column);
             udtName' = toLowerCase (udtName column)
         in
           if startsWith udtName' ''_'' then
             (let baseName = drop 1 udtName';
                  (k, g1) = number_int 1 3 g
              in case generate_elements lib (nat k)
                        (column\<lparr>dataType := udtToDataType baseName, udtName := baseName\<rparr>) enums g1 of
                   (Inl e, g2) \<Rightarrow> (Inl e, g2)
                 | (Inr vs, g2) \<Rightarrow> (Inr (Arr vs), g2))
           else if possible_labels enums (udtName column) \<noteq> [] then
             (let (r, g') = randomFromArray (possible_labels enums (udtName column)) g
              in (Inr (Str r), g'))
           else if str_includes dataType' ''inet'' \<or> str_includes dataType' ''cidr'' then
             (let (s, g') = text_of lib ''internet.ip'' g in (Inr (Str s), g'))
           else
             (let (hint, g') = generateFromHints lib (column_name column) g
              in if hint \<noteq> None \<and> hint \<noteq> Some [] then
                   (Inr (Str (clampString (the hint) (maxLength column))), g')
                 else
                   (let (r, g'') = generateByType lib column dataType' g' in (Inr r, g'')))))"
| "generate_elements lib 0 column enums g = (Inr [], g)"
| "generate_elements lib (Suc n) column enums g =
     (case generateValue lib column enums None g of
        (Inl e, g1) \<Rightarrow> (Inl e, g1)
      | (Inr v, g1) \<Rightarrow>
          (case generate_elements lib n column enums g1 of
             (Inl e, g2) \<Rightarrow> (Inl e, g2)
           | (Inr vs, g2) \<Rightarrow> (Inr (v # vs), g2)))"
  by pat_completeness auto
termination
  by (relation "measures
    [\<lambda>x. case x of Inl (lib, c, enums, ov, g) \<Rightarrow> length (udtName c)
                     | Inr (lib, n, c, enums, g) \<Rightarrow> length (udtName c),
     \<lambda>x. case x of Inl (lib, c, enums, ov, g) \<Rightarrow> 0
                     | Inr (lib, n, c, enums, g) \<Rightarrow> Suc n]")
    (auto simp: length_toLowerCase toLowerCase_Nil_iff dest!: startsWith_nonempty)

declare generateValue.simps [simp del]

section \<open>index.ts: the seeder core\<close>

text \<open>
  The storage collaborator is the three queries \<^verbatim>\<open>seedTable\<close> sends before it inserts:
  the row count of a table, the ordered and limited sample of a parent's key columns, and
  the rows of the table projected on a constraint's columns. A result row maps column
  names to values. An executed insert is kept as the statement's varying parts: the
  qualified table name, the quoted column list and the parameter values row by row.
\<close>

type_synonym row = "(string \<times> jsval) list"
type_synonym pool = "jsval list list"
type_synonym pool_map = "(string \<times> pool) list"

record storage =
  count_rows :: "string \<Rightarrow> string \<Rightarrow> nat option"
  select_pool :: "string \<Rightarrow> string \<Rightarrow> string list \<Rightarrow> rat \<Rightarrow> row list"
  select_columns :: "string \<Rightarrow> string \<Rightarrow> string list \<Rightarrow> row list"

datatype statement =
    InsertDefaultValues string
  | InsertRows string "string list" "jsval list list"

record SeedSummary =
  summary_table :: string
  inserted :: rat
  existing :: nat

record UniqueConstraintSet =
  set_name :: string
  set_columns :: "string list"
  indices :: "nat list"
  key_set :: "string set"
  pairQueue :: "(jsval \<times> jsval) list option"

text \<open>
  \<^verbatim>\<open>buildUniqueConstraintSets\<close> declares its second parameter as a list of names and
  keys a \<^verbatim>\<open>Map\<close> by its elements; its one caller passes column descriptors. A key of that
  map is therefore either of the two, and a string is never equal to an object.
\<close>

datatype jskey = KeyString string | KeyColumn ColumnInfo

definition DEFAULT_POOL_LIMIT :: rat where
  "DEFAULT_POOL_LIMIT = 5000"

definition row_get :: "row \<Rightarrow> string \<Rightarrow> jsval" where
  \<comment> \<open>\<^verbatim>\<open>row[col]\<close>\<close>
  "row_get r col = (case map_of r col of Some v \<Rightarrow> v | None \<Rightarrow> Undefined)"

definition matchesTableFilter :: "string list \<Rightarrow> string \<Rightarrow> string \<Rightarrow> bool" where
  "matchesTableFilter filt schema tbl = (tbl \<in> set filt \<or> (schema @ ''.'' @ tbl) \<in> set filt)"

definition foreignKeyPoolKey :: "ForeignKeyInfo \<Rightarrow> string" where
  "foreignKeyPoolKey fk = refSchema fk @ ''.'' @ refTable fk @ '':'' @ join '','' (refColumns fk)"

text \<open>
  \<^verbatim>\<open>resolveOverride\<close> reads the configured object by key. Under a bare column name that
  is a member of \<^verbatim>\<open>Object.prototype\<close> (\<^verbatim>\<open>constructor\<close>, \<^verbatim>\<open>toString\<close>) and has no entry of its
  own, the source finds the inherited member, an object with neither \<^verbatim>\<open>values\<close> nor
  \<^verbatim>\<open>faker\<close>, which \<^verbatim>\<open>generateValue\<close> treats as it treats no override: here \<open>None\<close>.
\<close>

definition resolveOverride ::
    "(string \<times> OverrideSpec) list option \<Rightarrow> string \<Rightarrow> string \<Rightarrow> string \<Rightarrow> OverrideSpec option" where
  "resolveOverride ovs schema tbl column =
     (case ovs of
        None \<Rightarrow> None
      | Some m \<Rightarrow>
          (let fullKey = schema @ ''.'' @ tbl @ ''.'' @ column;
               tableKey = tbl @ ''.'' @ column
           in case map_of m fullKey of
                Some ov \<Rightarrow> Some ov
              | None \<Rightarrow> (case map_of m tableKey of Some ov \<Rightarrow> Some ov | None \<Rightarrow> map_of m column)))"

definition pool_of :: "pool_map \<Rightarrow> string \<Rightarrow> pool" where
  \<comment> \<open>\<^verbatim>\<open>fkPools.get(key) ?? []\<close>\<close>
  "pool_of fkPools key = (case map_of fkPools key of Some p \<Rightarrow> p | None \<Rightarrow> [])"

subsection \<open>loadForeignKeyPools and validateForeignKeyPools\<close>

definition load_pool ::
    "storage \<Rightarrow> rat \<Rightarrow> ForeignKeyInfo \<Rightarrow> pool_map \<times> pool_map \<Rightarrow> pool_map \<times> pool_map" where
  \<comment> \<open>body of the loop, lines 293 to 309, on the pair of \<^verbatim>\<open>pools\<close> and \<^verbatim>\<open>cache\<close>\<close>
  "load_pool db limit fk st =
     (let pools = fst st; cache = snd st; key = foreignKeyPoolKey fk
      in if map_has cache key then (AList.update key (pool_of cache key) pools, cache)
         else
           (let rows = select_pool db (refSchema fk) (refTable fk) (refColumns fk) limit;
                pool = map (\<lambda>r. map (row_get r) (refColumns fk)) rows
            in (AList.update key pool pools, AList.update key pool cache)))"

definition loadForeignKeyPools ::
    "storage \<Rightarrow> TableInfo \<Rightarrow> pool_map \<Rightarrow> rat \<Rightarrow> pool_map \<times> pool_map" where
  "loadForeignKeyPools db table cache maxRecs =
     (let limit = min DEFAULT_POOL_LIMIT (max 50 (maxRecs * 5))
      in fold (load_pool db limit) (fks table) ([], cache))"

definition requiresValue :: "(string \<times> ColumnInfo) list \<Rightarrow> ForeignKeyInfo \<Rightarrow> bool" where
  \<comment> \<open>\<^verbatim>\<open>fk.columns.some((columnName) => !columnMap.get(columnName)?.isNullable)\<close>\<close>
  "requiresValue columnMap fk =
     (\<exists>columnName \<in> set (fk_columns fk).
        case map_of columnMap columnName of None \<Rightarrow> True | Some column \<Rightarrow> \<not> isNullable column)"

fun validate_fks ::
    "TableInfo \<Rightarrow> (string \<times> ColumnInfo) list \<Rightarrow> pool_map \<Rightarrow> ForeignKeyInfo list \<Rightarrow> error option" where
  \<comment> \<open>the loop of lines 483 to 496; \<open>Some e\<close> is the throw\<close>
  "validate_fks table columnMap fkPools [] = None"
| "validate_fks table columnMap fkPools (fk # rest) =
     (if length (pool_of fkPools (foreignKeyPoolKey fk)) > 0 then validate_fks table columnMap fkPools rest
      else if requiresValue columnMap fk then
        Some (FkPoolEmptyForTable (table_schema table) (table_name table) (refSchema fk) (refTable fk)
                (fk_columns fk))
      else validate_fks table columnMap fkPools rest)"

definition validateForeignKeyPools :: "TableInfo \<Rightarrow> pool_map \<Rightarrow> error option" where
  "validateForeignKeyPools table fkPools =
     validate_fks table (Map_of_entries (map (\<lambda>column. (column_name column, column)) (table_columns table)))
       fkPools (fks table)"

subsection \<open>The uniqueness tracker\<close>

definition valueToKey :: "js_host \<Rightarrow> jsval \<Rightarrow> string option" where
  \<comment> \<open>\<open>None\<close> is \<^verbatim>\<open>null\<close>\<close>
  "valueToKey host v =
     (case v of
        Null \<Rightarrow> None
      | Undefined \<Rightarrow> None
      | Str s \<Rightarrow> Some s
      | Num n \<Rightarrow> Some (String_of_number host n)
      | Bool b \<Rightarrow> Some (if b then ''true'' else ''false'')
      | DateV isoString \<Rightarrow> Some isoString
      | BufferV bytes \<Rightarrow> Some (to_hex bytes)
      | _ \<Rightarrow> Some (JSON_stringify host v))"

definition buildUniqueKeyFromColumns :: "js_host \<Rightarrow> row \<Rightarrow> string list \<Rightarrow> string option" where
  "buildUniqueKeyFromColumns host r columns =
     (case those (map (\<lambda>column. valueToKey host (row_get r column)) columns) of
        None \<Rightarrow> None
      | Some keys \<Rightarrow> Some (JSON_stringify host (Arr (map Str keys))))"

definition buildUniqueKeyFromRow :: "js_host \<Rightarrow> jsval list \<Rightarrow> nat list \<Rightarrow> string option" where
  "buildUniqueKeyFromRow host vals idxs =
     (case those (map (\<lambda>i. valueToKey host (array_get vals i)) idxs) of
        None \<Rightarrow> None
      | Some keys \<Rightarrow> Some (JSON_stringify host (Arr (map Str keys))))"

definition constraint_set :: "(jskey \<times> nat) list \<Rightarrow> UniqueConstraintInfo \<Rightarrow> UniqueConstraintSet option" where
  \<comment> \<open>body of the loop of lines 338 to 357; \<open>None\<close> is \<^verbatim>\<open>continue\<close>. The lookup
      \<^verbatim>\<open>indexMap.get(column)\<close> is by the column's name, a string\<close>
  "constraint_set indexMap constraint =
     (if length (constraint_columns constraint) = 0 then None
      else
        (case those (map (\<lambda>column. map_of indexMap (KeyString column)) (constraint_columns constraint)) of
           None \<Rightarrow> None
         | Some idxs \<Rightarrow>
             Some \<lparr>set_name = constraint_name constraint,
                   set_columns = constraint_columns constraint,
                   indices = idxs,
                   key_set = {},
                   pairQueue = None\<rparr>))"

definition buildUniqueConstraintSets :: "TableInfo \<Rightarrow> jskey list \<Rightarrow> UniqueConstraintSet list" where
  "buildUniqueConstraintSets table insertColumnNames =
     (let indexMap = Map_of_entries (zip insertColumnNames [0..<length insertColumnNames])
      in List.map_filter (constraint_set indexMap) (uniqueConstraints table))"

definition load_constraint_values ::
    "js_host \<Rightarrow> storage \<Rightarrow> TableInfo \<Rightarrow> UniqueConstraintSet \<Rightarrow> UniqueConstraintSet" where
  \<comment> \<open>body of the loop of lines 366 to 378\<close>
  "load_constraint_values host db table constraint =
     (let rows = select_columns db (table_schema table) (table_name table) (set_columns constraint)
      in constraint\<lparr>key_set :=
           fold (\<lambda>r s. case buildUniqueKeyFromColumns host r (set_columns constraint) of
                          None \<Rightarrow> s
                        | Some key \<Rightarrow> insert key s)
             rows (key_set constraint)\<rparr>)"

definition loadUniqueConstraintValues ::
    "js_host \<Rightarrow> storage \<Rightarrow> TableInfo \<Rightarrow> UniqueConstraintSet list \<Rightarrow> UniqueConstraintSet list" where
  "loadUniqueConstraintValues host db table constraints =
     map (load_constraint_values host db table) constraints"

fun shuffle_loop :: "nat \<Rightarrow> 'a list \<Rightarrow> rng \<Rightarrow> 'a list \<times> rng" where
  \<comment> \<open>the loop of shuffleInPlace from index \<open>i\<close> down to 1\<close>
  "shuffle_loop 0 vals g = (vals, g)"
| "shuffle_loop (Suc i) vals g =
     (let (j, g') = number_int 0 (int (Suc i)) g;
          temp = vals ! Suc i;
          vals' = vals[Suc i := vals ! nat j];
          vals'' = vals'[nat j := temp]
      in shuffle_loop i vals'' g')"

definition shuffleInPlace :: "'a list \<Rightarrow> rng \<Rightarrow> 'a list \<times> rng" where
  "shuffleInPlace vals g = shuffle_loop (length vals - 1) vals g"

definition fk_column_values :: "TableInfo \<Rightarrow> pool_map \<Rightarrow> (string \<times> jsval list) list" where
  \<comment> \<open>lines 387 to 396\<close>
  "fk_column_values table fkPools =
     fold (\<lambda>fk m.
             if length (fk_columns fk) \<noteq> 1 then m
             else
               (let pool = pool_of fkPools (foreignKeyPoolKey fk);
                    vals = Set_of (filter (\<lambda>v. v \<noteq> Null) (map (\<lambda>r. array_get r 0) pool))
                in AList.update (hd (fk_columns fk)) vals m))
       (fks table) []"

definition candidate_pairs ::
    "js_host \<Rightarrow> UniqueConstraintSet \<Rightarrow> jsval list \<Rightarrow> jsval list \<Rightarrow> (jsval \<times> jsval) list" where
  \<comment> \<open>lines 409 to 417\<close>
  "candidate_pairs host constraint valuesA valuesB =
     concat (map (\<lambda>a. List.map_filter
                        (\<lambda>b. case buildUniqueKeyFromRow host [a, b] [0, 1] of
                                None \<Rightarrow> None
                              | Some key \<Rightarrow> if key \<in> key_set constraint then None else Some (a, b))
                        valuesB) valuesA)"

definition build_pair_queue ::
    "js_host \<Rightarrow> (string \<times> jsval list) list \<Rightarrow> rat \<Rightarrow> UniqueConstraintSet \<Rightarrow> rng
       \<Rightarrow> UniqueConstraintSet \<times> rng" where
  \<comment> \<open>body of the loop of lines 399 to 420\<close>
  "build_pair_queue host fkColumnValues maxPairs constraint g =
     (case set_columns constraint of
        [colA, colB] \<Rightarrow>
          (case (map_of fkColumnValues colA, map_of fkColumnValues colB) of
             (Some valuesA, Some valuesB) \<Rightarrow>
               (let total = length valuesA * length valuesB
                in if total = 0 \<or> of_nat total > maxPairs then (constraint, g)
                   else
                     (let (pairs, g') = shuffleInPlace (candidate_pairs host constraint valuesA valuesB) g
                      in (constraint\<lparr>pairQueue := Some pairs\<rparr>, g')))
           | _ \<Rightarrow> (constraint, g))
      | _ \<Rightarrow> (constraint, g))"

fun build_pair_queues ::
    "js_host \<Rightarrow> (string \<times> jsval list) list \<Rightarrow> rat \<Rightarrow> UniqueConstraintSet list \<Rightarrow> rng
       \<Rightarrow> UniqueConstraintSet list \<times> rng" where
  "build_pair_queues host fkColumnValues maxPairs [] g = ([], g)"
| "build_pair_queues host fkColumnValues maxPairs (constraint # rest) g =
     (let (constraint', g1) = build_pair_queue host fkColumnValues maxPairs constraint g;
          (rest', g2) = build_pair_queues host fkColumnValues maxPairs rest g1
      in (constraint' # rest', g2))"

definition buildUniquePairQueues ::
    "js_host \<Rightarrow> TableInfo \<Rightarrow> pool_map \<Rightarrow> UniqueConstraintSet list \<Rightarrow> rat \<Rightarrow> rng
       \<Rightarrow> UniqueConstraintSet list \<times> rng" where
  "buildUniquePairQueues host table fkPools constraints target g =
     build_pair_queues host (fk_column_values table fkPools) (max 200 (target * 5)) constraints g"

subsection \<open>buildRowValues\<close>

text \<open>
  \<^verbatim>\<open>fkMap\<close> and \<^verbatim>\<open>fkAssignments\<close> hold and are keyed by foreign-key objects, compared by
  identity: the model names a foreign key by its index in \<^verbatim>\<open>table.fks\<close>.
\<close>

definition build_fkMap :: "TableInfo \<Rightarrow> (string \<times> nat) list" where
  \<comment> \<open>lines 184 to 189\<close>
  "build_fkMap table =
     fold (\<lambda>entry m. fold (\<lambda>column m'. AList.update column (fst entry) m') (fk_columns (snd entry)) m)
       (zip [0..<length (fks table)] (fks table)) []"

definition preset_set :: "nat list \<Rightarrow> nat \<Rightarrow> jsval \<Rightarrow> (nat \<times> jsval) list \<Rightarrow> (nat \<times> jsval) list" where
  \<comment> \<open>\<^verbatim>\<open>presetValues.set(constraint.indices[k], v)\<close>; under the key \<^verbatim>\<open>undefined\<close> the entry is
      never read\<close>
  "preset_set idxs k v presetValues =
     (if k < length idxs then AList.update (idxs ! k) v presetValues else presetValues)"

fun take_presets ::
    "UniqueConstraintSet list \<Rightarrow> (nat \<times> jsval) list \<Rightarrow> UniqueConstraintSet list \<times> (nat \<times> jsval) list" where
  \<comment> \<open>the loop of lines 195 to 203: the constraints with their queues advanced, and the presets\<close>
  "take_presets [] presetValues = ([], presetValues)"
| "take_presets (constraint # rest) presetValues =
     (case pairQueue constraint of
        Some (pair # queue) \<Rightarrow>
          (let presetValues' = preset_set (indices constraint) 1 (snd pair)
                                 (preset_set (indices constraint) 0 (fst pair) presetValues);
               (rest', p) = take_presets rest presetValues'
           in (constraint\<lparr>pairQueue := Some queue\<rparr> # rest', p))
      | _ \<Rightarrow>
          (let (rest', p) = take_presets rest presetValues
           in (constraint # rest', p)))"

fun sample_foreign_keys ::
    "pool_map \<Rightarrow> ForeignKeyInfo list \<Rightarrow> rng \<Rightarrow> jsval list option list \<times> rng" where
  \<comment> \<open>the loop of lines 204 to 213; \<open>None\<close> is \<^verbatim>\<open>null\<close>\<close>
  "sample_foreign_keys fkPools [] g = ([], g)"
| "sample_foreign_keys fkPools (fk # rest) g =
     (let pool = pool_of fkPools (foreignKeyPoolKey fk)
      in if length pool = 0 then
           (let (assignments, g') = sample_foreign_keys fkPools rest g
            in (None # assignments, g'))
         else
           (let (assigned, g1) = helpers_arrayElement pool g;
                (assignments, g2) = sample_foreign_keys fkPools rest g1
            in (Some assigned # assignments, g2)))"

fun fill_columns ::
    "faker_lib \<Rightarrow> TableInfo \<Rightarrow> EnumMap \<Rightarrow> (string \<times> OverrideSpec) list option
     \<Rightarrow> (string \<times> nat) list \<Rightarrow> jsval list option list \<Rightarrow> (nat \<times> jsval) list
     \<Rightarrow> nat \<Rightarrow> ColumnInfo list \<Rightarrow> jsval list \<Rightarrow> rng \<Rightarrow> error + (jsval list \<times> rng)" where
  \<comment> \<open>the loop of lines 215 to 251 from column \<open>colIndex\<close> on\<close>
  "fill_columns lib table enums ovs fkMap fkAssignments presetValues colIndex [] vals g = Inr (vals, g)"
| "fill_columns lib table enums ovs fkMap fkAssignments presetValues colIndex (column # rest) vals g =
     (case map_of presetValues colIndex of
        Some v \<Rightarrow>
          fill_columns lib table enums ovs fkMap fkAssignments presetValues (colIndex + 1) rest (vals @ [v]) g
      | None \<Rightarrow>
          (case map_of fkMap (column_name column) of
             Some fkIndex \<Rightarrow>
               (case fkAssignments ! fkIndex of
                  None \<Rightarrow>
                    if isNullable column then
                      fill_columns lib table enums ovs fkMap fkAssignments presetValues (colIndex + 1) rest
                        (vals @ [Null]) g
                    else
                      Inl (FkPoolEmptyForColumn (table_name table) (column_name column)
                             (refTable (fks table ! fkIndex)))
                | Some assigned \<Rightarrow>
                    (let position = indexOf (fk_columns (fks table ! fkIndex)) (column_name column)
                     in fill_columns lib table enums ovs fkMap fkAssignments presetValues (colIndex + 1) rest
                          (vals @ [array_get assigned position]) g))
           | None \<Rightarrow>
               (let (injectNull, g1) =
                      (if isNullable column
                       then (let (r, g') = number_int 1 100 g in (r \<le> 15, g'))
                       else (False, g))
                in if injectNull then
                     fill_columns lib table enums ovs fkMap fkAssignments presetValues (colIndex + 1) rest
                       (vals @ [Null]) g1
                   else
                     (case generateValue lib column enums
                             (resolveOverride ovs (table_schema table) (table_name table) (column_name column))
                             g1 of
                        (Inl e, g2) \<Rightarrow> Inl e
                      | (Inr v, g2) \<Rightarrow>
                          fill_columns lib table enums ovs fkMap fkAssignments presetValues (colIndex + 1)
                            rest (vals @ [v]) g2))))"

fun check_constraints ::
    "js_host \<Rightarrow> jsval list \<Rightarrow> UniqueConstraintSet list \<Rightarrow> string option list option" where
  \<comment> \<open>the loop of lines 259 to 267: \<open>None\<close> on a conflict, otherwise the pending key of each
      constraint (none where a participating value is null)\<close>
  "check_constraints host vals [] = Some []"
| "check_constraints host vals (constraint # rest) =
     (case buildUniqueKeyFromRow host vals (indices constraint) of
        None \<Rightarrow> map_option (Cons None) (check_constraints host vals rest)
      | Some key \<Rightarrow>
          if key \<in> key_set constraint then None
          else map_option (Cons (Some key)) (check_constraints host vals rest))"

definition reserve_keys :: "UniqueConstraintSet list \<Rightarrow> string option list \<Rightarrow> UniqueConstraintSet list" where
  \<comment> \<open>lines 269 to 271\<close>
  "reserve_keys constraints pending =
     map2 (\<lambda>constraint key.
             case key of None \<Rightarrow> constraint
                       | Some k \<Rightarrow> constraint\<lparr>key_set := insert k (key_set constraint)\<rparr>)
       constraints pending"

fun attempt_rows ::
    "nat \<Rightarrow> js_host \<Rightarrow> faker_lib \<Rightarrow> TableInfo \<Rightarrow> ColumnInfo list \<Rightarrow> pool_map \<Rightarrow> EnumMap
     \<Rightarrow> (string \<times> OverrideSpec) list option \<Rightarrow> UniqueConstraintSet list \<Rightarrow> rng
     \<Rightarrow> error + (jsval list \<times> UniqueConstraintSet list \<times> rng)" where
  \<comment> \<open>the loop of lines 192 to 274 with the given number of attempts left, and the throw
      of lines 276 to 281 after it\<close>
  "attempt_rows 0 host lib table insertColumns fkPools enums ovs constraints g =
     Inl (UniqueExhausted (table_schema table) (table_name table) (map set_name constraints))"
| "attempt_rows (Suc remaining) host lib table insertColumns fkPools enums ovs constraints g =
     (let (constraints1, presetValues) = take_presets constraints [];
          (fkAssignments, g1) = sample_foreign_keys fkPools (fks table) g
      in case fill_columns lib table enums ovs (build_fkMap table) fkAssignments presetValues 0
                insertColumns [] g1 of
           Inl e \<Rightarrow> Inl e
         | Inr (vals, g2) \<Rightarrow>
             if length constraints1 = 0 then Inr (vals, constraints1, g2)
             else
               (case check_constraints host vals constraints1 of
                  None \<Rightarrow>
                    attempt_rows remaining host lib table insertColumns fkPools enums ovs constraints1 g2
                | Some pending \<Rightarrow> Inr (vals, reserve_keys constraints1 pending, g2)))"

definition buildRowValues ::
    "js_host \<Rightarrow> faker_lib \<Rightarrow> TableInfo \<Rightarrow> ColumnInfo list \<Rightarrow> pool_map \<Rightarrow> EnumMap
     \<Rightarrow> (string \<times> OverrideSpec) list option \<Rightarrow> UniqueConstraintSet list \<Rightarrow> rng
     \<Rightarrow> error + (jsval list \<times> UniqueConstraintSet list \<times> rng)" where
  "buildRowValues host lib table insertColumns fkPools enums ovs constraints g =
     attempt_rows (if length constraints > 0 then 25 else 1)
       host lib table insertColumns fkPools enums ovs constraints g"

subsection \<open>seedTable\<close>

fun build_rows ::
    "nat \<Rightarrow> js_host \<Rightarrow> faker_lib \<Rightarrow> TableInfo \<Rightarrow> ColumnInfo list \<Rightarrow> pool_map \<Rightarrow> EnumMap
     \<Rightarrow> (string \<times> OverrideSpec) list option \<Rightarrow> UniqueConstraintSet list \<Rightarrow> rng
     \<Rightarrow> error + (jsval list list \<times> UniqueConstraintSet list \<times> rng)" where
  \<comment> \<open>the loop of lines 139 to 154: the parameter values of one batch, row by row\<close>
  "build_rows 0 host lib table insertColumns fkPools enums ovs constraints g = Inr ([], constraints, g)"
| "build_rows (Suc n) host lib table insertColumns fkPools enums ovs constraints g =
     (case buildRowValues host lib table insertColumns fkPools enums ovs constraints g of
        Inl e \<Rightarrow> Inl e
      | Inr (rowValues, constraints1, g1) \<Rightarrow>
          (case build_rows n host lib table insertColumns fkPools enums ovs constraints1 g1 of
             Inl e \<Rightarrow> Inl e
           | Inr (rows, constraints2, g2) \<Rightarrow>
               Inr (map (array_get rowValues) [0..<length insertColumns] # rows, constraints2, g2)))"

function insert_batches ::
    "rat \<Rightarrow> rat \<Rightarrow> string \<Rightarrow> js_host \<Rightarrow> faker_lib \<Rightarrow> TableInfo \<Rightarrow> ColumnInfo list \<Rightarrow> pool_map
     \<Rightarrow> EnumMap \<Rightarrow> (string \<times> OverrideSpec) list option \<Rightarrow> UniqueConstraintSet list \<Rightarrow> rng
     \<Rightarrow> error + (statement list \<times> UniqueConstraintSet list \<times> rng)" where
  \<comment> \<open>the loop of lines 134 to 161 from offset \<open>i\<close> on; a loop bounded by a fraction runs
      to the next integer\<close>
  "insert_batches i target fullName host lib table insertColumns fkPools enums ovs constraints g =
     (if i < target then
        (let batchCount = min 100 (target - i)
         in case build_rows (nat \<lceil>batchCount\<rceil>) host lib table insertColumns fkPools enums ovs
                   constraints g of
              Inl e \<Rightarrow> Inl e
            | Inr (rows, constraints1, g1) \<Rightarrow>
                (case insert_batches (i + 100) target fullName host lib table insertColumns fkPools enums
                        ovs constraints1 g1 of
                   Inl e \<Rightarrow> Inl e
                 | Inr (statements, constraints2, g2) \<Rightarrow>
                     Inr (InsertRows fullName (map (\<lambda>column. quoteIdent (column_name column)) insertColumns)
                            rows # statements, constraints2, g2)))
      else Inr ([], constraints, g))"
  by pat_completeness auto
termination
proof (relation "measure (\<lambda>(i, target, rest). nat \<lceil>target - i\<rceil>)", goal_cases)
  case 1
  show ?case by simp
next
  case (2 i target fullName host lib table insertColumns fkPools enums ovs constraints g)
  then have "0 < target - i" by simp
  then have pos: "0 < \<lceil>target - i\<rceil>" by simp
  have "target - (i + 100) = target - i - 100" by simp
  then have "\<lceil>target - (i + 100)\<rceil> = \<lceil>target - i - 100\<rceil>" by (rule arg_cong)
  also have "\<dots> = \<lceil>target - i\<rceil> - 100" by (rule ceiling_diff_numeral)
  finally have "\<lceil>target - (i + 100)\<rceil> = \<lceil>target - i\<rceil> - 100" .
  with pos show ?case by simp
qed

declare insert_batches.simps [simp del]

definition has_columnDefault :: "ColumnInfo \<Rightarrow> bool" where
  \<comment> \<open>the truth value of \<^verbatim>\<open>column.columnDefault\<close>: a string that is not empty\<close>
  "has_columnDefault column = (columnDefault column \<noteq> None \<and> columnDefault column \<noteq> Some [])"

definition insert_columns :: "TableInfo \<Rightarrow> ColumnInfo list" where
  \<comment> \<open>lines 112 to 118\<close>
  "insert_columns table =
     (let fkColumns = set (concat (map fk_columns (fks table)))
      in filter (\<lambda>column.
           if isIdentity column \<or> isGenerated column then False
           else if has_columnDefault column \<and> column_name column \<notin> fkColumns then False
           else True) (table_columns table))"

definition seed_target :: "rat \<Rightarrow> nat \<Rightarrow> rat" where
  \<comment> \<open>\<^verbatim>\<open>Math.max(0, config.maxRecords - existing)\<close>, line 99\<close>
  "seed_target maxRecs existing' = max 0 (maxRecs - of_nat existing')"

definition seedTable ::
    "js_host \<Rightarrow> faker_lib \<Rightarrow> storage \<Rightarrow> TableInfo \<Rightarrow> Config \<Rightarrow> EnumMap \<Rightarrow> pool_map \<Rightarrow> rng
     \<Rightarrow> error + (SeedSummary \<times> statement list \<times> pool_map \<times> rng)" where
  "seedTable host lib db table config enums fkPoolCache g =
     (let schemaName = quoteIdent (table_schema table);
          tableName = quoteIdent (table_name table);
          fullName = schemaName @ ''.'' @ tableName;
          existing' = (case count_rows db (table_schema table) (table_name table) of
                         Some n \<Rightarrow> n | None \<Rightarrow> 0);
          target = seed_target (maxRecords config) existing'
      in if target = 0 then
           Inr (\<lparr>summary_table = table_name table, inserted = 0, existing = existing'\<rparr>, [],
                fkPoolCache, g)
         else
           (let (fkPools, cache') = loadForeignKeyPools db table fkPoolCache (maxRecords config)
            in case validateForeignKeyPools table fkPools of
                 Some e \<Rightarrow> Inl e
               | None \<Rightarrow>
                   (let insertColumns = insert_columns table;
                        constraints0 = buildUniqueConstraintSets table (map KeyColumn insertColumns);
                        constraints1 = loadUniqueConstraintValues host db table constraints0;
                        (constraints2, g1) = buildUniquePairQueues host table fkPools constraints1 target g;
                        summary = \<lparr>summary_table = table_name table, inserted = target,
                                   existing = existing'\<rparr>
                    in if length insertColumns = 0 then
                         Inr (summary,
                              if dryRun config then []
                              else replicate (nat \<lceil>target\<rceil>) (InsertDefaultValues fullName),
                              cache', g1)
                       else if \<not> dryRun config then
                         (case insert_batches 0 target fullName host lib table insertColumns fkPools enums
                                 (overrides config) constraints2 g1 of
                            Inl e \<Rightarrow> Inl e
                          | Inr (statements, constraints3, g2) \<Rightarrow> Inr (summary, statements, cache', g2))
                       else Inr (summary, [], cache', g1))))"

subsection \<open>runSeeder: the insertion order of one schema\<close>

definition add_edge :: "string \<Rightarrow> string \<Rightarrow> edge_map \<Rightarrow> edge_map" where
  \<comment> \<open>lines 61 to 65\<close>
  "add_edge from to edges =
     (let s = (case map_of edges from of Some s \<Rightarrow> s | None \<Rightarrow> [])
      in AList.update from (if to \<in> set s then s else s @ [to]) edges)"

definition build_edges :: "string \<Rightarrow> TableInfo list \<Rightarrow> edge_map" where
  \<comment> \<open>lines 55 to 67\<close>
  "build_edges schema tables =
     (let tableNameSet = Set_of (map table_name tables)
      in fold (\<lambda>table edges.
                 fold (\<lambda>fk edges'.
                         if refSchema fk \<noteq> schema then edges'
                         else if refTable fk \<notin> set tableNameSet then edges'
                         else add_edge (refTable fk) (table_name table) edges')
                   (fks table) edges)
           tables [])"

definition order_tables :: "string \<Rightarrow> TableInfo list \<Rightarrow> error + TableInfo list" where
  \<comment> \<open>lines 55 to 72, on the tables left by the include and exclude filters\<close>
  "order_tables schema tables =
     (case topologicalSort (Set_of (map table_name tables)) (build_edges schema tables) of
        Inl e \<Rightarrow> Inl e
      | Inr orderedNames \<Rightarrow>
          Inr (List.map_filter (\<lambda>n. find (\<lambda>table. table_name table = n) tables) orderedNames))"

section \<open>cli.ts: the configuration a run starts with\<close>

text \<open>
  \<^verbatim>\<open>Number(text)\<close> is a parameter; it yields a finite number or \<^verbatim>\<open>NaN\<close> (the two infinities
  are outside the model). The merged configuration is the defaults, overwritten by the
  file's fields, overwritten by the command line's; of its fields the model keeps those
  of \<^typ>\<open>Config\<close>.
\<close>

datatype jsnumber = NaN | Finite rat

datatype cli_exit = InvalidMaxRecords | InvalidSeed

record raw_config =
  raw_maxRecords :: "jsnumber option"
  raw_seed :: "jsnumber option"
  raw_dryRun :: "bool option"
  raw_overrides :: "(string \<times> OverrideSpec) list option"

record cli_options =
  option_maxRecords :: "string option"
  option_seed :: "string option"
  option_dryRun :: "bool option"

definition cliConfig :: "(string \<Rightarrow> jsnumber) \<Rightarrow> cli_options \<Rightarrow> raw_config" where
  \<comment> \<open>lines 42 to 51: an option that is absent or the empty string sets nothing\<close>
  "cliConfig Number options =
     \<lparr>raw_maxRecords = (case option_maxRecords options of
                          Some s \<Rightarrow> if s \<noteq> [] then Some (Number s) else None
                        | None \<Rightarrow> None),
      raw_seed = (case option_seed options of
                    Some s \<Rightarrow> if s \<noteq> [] then Some (Number s) else None
                  | None \<Rightarrow> None),
      raw_dryRun = option_dryRun options,
      raw_overrides = None\<rparr>"

definition spread :: "'a \<Rightarrow> 'a option \<Rightarrow> 'a option \<Rightarrow> 'a" where
  \<comment> \<open>one field of \<^verbatim>\<open>{ default, ...fileConfig, ...cliConfig }\<close>\<close>
  "spread d fileValue cliValue =
     (case cliValue of Some v \<Rightarrow> v | None \<Rightarrow> (case fileValue of Some v \<Rightarrow> v | None \<Rightarrow> d))"

definition merged_maxRecords :: "(string \<Rightarrow> jsnumber) \<Rightarrow> raw_config \<Rightarrow> cli_options \<Rightarrow> jsnumber" where
  "merged_maxRecords Number fileConfig options =
     spread (Finite 50) (raw_maxRecords fileConfig) (raw_maxRecords (cliConfig Number options))"

definition normalize_config ::
    "(string \<Rightarrow> jsnumber) \<Rightarrow> raw_config \<Rightarrow> cli_options \<Rightarrow> cli_exit + (Config \<times> string list)" where
  \<comment> \<open>lines 53 to 82: the configuration handed to \<^verbatim>\<open>runSeeder\<close> and the warnings printed\<close>
  "normalize_config Number fileConfig options =
     (let cli = cliConfig Number options;
          seed' = spread (Finite 1337) (raw_seed fileConfig) (raw_seed cli);
          dryRun' = spread False (raw_dryRun fileConfig) (raw_dryRun cli);
          overrides' = raw_overrides fileConfig
      in case merged_maxRecords Number fileConfig options of
           NaN \<Rightarrow> Inl InvalidMaxRecords
         | Finite m \<Rightarrow>
             (let capped = (if m > 50 then 50 else m);
                  warnings = (if m > 50 then [''Max records capped at 50 by default.''] else [])
              in case seed' of
                   NaN \<Rightarrow> Inl InvalidSeed
                 | Finite s \<Rightarrow>
                     Inr (\<lparr>maxRecords = capped, seed = s, dryRun = dryRun', overrides = overrides'\<rparr>,
                          warnings)))"

section \<open>Concrete inputs for the witnesses\<close>

text \<open>
  A host, a faker library whose text producers return the path they were called by, a
  random source given by its first draws (zero afterwards), and a small schema:
  \<^verbatim>\<open>children\<close> references \<^verbatim>\<open>parents\<close>, which holds the ids 1, 2 and 3.
\<close>

definition demo_host :: js_host where
  "demo_host =
     \<lparr>String_of_number = (\<lambda>r. if r = of_int \<lfloor>r\<rfloor> then (if r < 0 then ''-'' else '''') @ String_nat (nat \<bar>\<lfloor>r\<rfloor>\<bar>) else ''?''),
      JSON_stringify = (\<lambda>v. case v of Arr xs \<Rightarrow> concat (map (\<lambda>x. case x of Str s \<Rightarrow> quoteIdent s | _ \<Rightarrow> ''?'') xs) | _ \<Rightarrow> ''?'')\<rparr>"

definition demo_lib :: faker_lib where
  "demo_lib =
     \<lparr>text_of = (\<lambda>path g. (path, snd (draw g))),
      date_of = (\<lambda>path g. (\<lparr>toISOString = ''2026-01-01T00:00:00.000Z'', getHours = 0,
                                getMinutes = 0, getSeconds = 0\<rparr>, snd (draw g))),
      faker_object = JObject [(''internet'', JObject [(''email'', JFunction (\<lambda>g. (Str ''a@example.com'', snd (draw g))))])]\<rparr>"

definition plain_column :: "string \<Rightarrow> string \<Rightarrow> string \<Rightarrow> bool \<Rightarrow> ColumnInfo" where
  "plain_column n dt udt nullable =
     \<lparr>column_name = n, dataType = dt, udtName = udt, isNullable = nullable,
      columnDefault = None, isIdentity = False, isGenerated = False, maxLength = None,
      numericPrecision = None, numericScale = None\<rparr>"

definition children_table :: TableInfo where
  "children_table =
     \<lparr>table_schema = ''public'', table_name = ''children'',
      table_columns =
        [(plain_column ''id'' ''integer'' ''int4'' False)\<lparr>isIdentity := True\<rparr>,
         (plain_column ''created_at'' ''timestamp with time zone'' ''timestamptz'' False)
            \<lparr>columnDefault := Some ''now()''\<rparr>,
         (plain_column ''parent_id'' ''integer'' ''int4'' False)\<lparr>columnDefault := Some ''1''\<rparr>,
         plain_column ''note'' ''text'' ''text'' False],
      pkColumns = [''id''],
      fks = [\<lparr>fk_columns = [''parent_id''], refSchema = ''public'', refTable = ''parents'',
              refColumns = [''id'']\<rparr>],
      uniqueConstraints = []\<rparr>"

definition parents_db :: storage where
  "parents_db =
     \<lparr>count_rows = (\<lambda>schema tbl. if tbl = ''parents'' then Some 3 else Some 0),
      select_pool = (\<lambda>schema tbl cols limit.
         if tbl = ''parents'' then [[(''id'', Num 1)], [(''id'', Num 2)], [(''id'', Num 3)]] else []),
      select_columns = (\<lambda>schema tbl cols. [])\<rparr>"

definition demo_config :: "rat \<Rightarrow> Config" where
  "demo_config n = \<lparr>maxRecords = n, seed = 1337, dryRun = False, overrides = None\<rparr>"

definition draws :: "nat list \<Rightarrow> rng" where
  "draws xs = Rng (\<lambda>i. if i < length xs then xs ! i else 0) 0"


definition seeded_statements ::
    "error + (SeedSummary \<times> statement list \<times> pool_map \<times> rng) \<Rightarrow> error + statement list" where
  "seeded_statements result = map_sum id (\<lambda>(summary, statements, cache, g). statements) result"

section \<open>Properties of the dependency orderer\<close>

text \<open>
  Vocabulary of the statements: one table precedes another in a sequence; the edge
  relation the orderer sees (both endpoints among the nodes); and what a \<^verbatim>\<open>Map\<close> of
  \<^verbatim>\<open>Set\<close>s guarantees by construction (a key occurs once, a member occurs once).
\<close>

definition precedes :: "'a \<Rightarrow> 'a \<Rightarrow> 'a list \<Rightarrow> bool" where
  "precedes p c xs = (p \<in> set xs \<and> c \<in> set xs \<and> indexOf xs p < indexOf xs c)"

definition edge_rel :: "string list \<Rightarrow> edge_map \<Rightarrow> (string \<times> string) set" where
  "edge_rel nodes edges =
     {(p, c). p \<in> set nodes \<and> c \<in> set nodes \<and> (\<exists>tos. (p, tos) \<in> set edges \<and> c \<in> set tos)}"

definition well_formed_edges :: "edge_map \<Rightarrow> bool" where
  "well_formed_edges edges = (distinct (map fst edges) \<and> (\<forall>entry \<in> set edges. distinct (snd entry)))"

definition weight :: "string list \<Rightarrow> edge_map \<Rightarrow> string list \<Rightarrow> string \<Rightarrow> nat" where
  "weight nodes edges res n =
     sum_list (map (\<lambda>entry. if fst entry \<in> set nodes \<and> fst entry \<notin> set res \<and> n \<in> set (snd entry)
                             then 1 else 0) edges)"

lemma indexOf_less_length: "x \<in> set xs \<Longrightarrow> indexOf xs x < length xs"
  unfolding indexOf_def
  by (induction xs) auto

lemma indexOf_append_in: "x \<in> set xs \<Longrightarrow> indexOf (xs @ ys) x = indexOf xs x"
  unfolding indexOf_def by (induction xs) auto

lemma indexOf_append_new: "x \<notin> set xs \<Longrightarrow> indexOf (xs @ [x]) x = length xs"
  unfolding indexOf_def by (induction xs) auto

lemma precedes_append: "precedes p c xs \<Longrightarrow> precedes p c (xs @ ys)"
  unfolding precedes_def by (auto simp: indexOf_append_in)

lemma precedes_snoc: "p \<in> set xs \<Longrightarrow> c \<notin> set xs \<Longrightarrow> precedes p c (xs @ [c])"
  unfolding precedes_def
  by (simp add: indexOf_append_in indexOf_append_new indexOf_less_length)

lemma precedes_irrefl: "\<not> precedes x x xs"
  unfolding precedes_def by simp

lemma precedes_trans: "precedes a b xs \<Longrightarrow> precedes b c xs \<Longrightarrow> precedes a c xs"
  unfolding precedes_def by auto

lemma fold_set_zero_map_of:
  "map_of (fold (\<lambda>node m. AList.update node (0::int) m) nodes m0) n
     = (if n \<in> set nodes then Some 0 else map_of m0 n)"
  by (induction nodes arbitrary: m0) (auto simp: update_conv')

lemma count_edge_map_of:
  "map_of (count_edge t deg) n
     = (if n = t then map_option (\<lambda>d. d + 1) (map_of deg n) else map_of deg n)"
  by (auto simp: count_edge_def map_has_def degree_or_zero_def update_conv')

lemma fold_count_edge_map_of:
  "distinct tos \<Longrightarrow>
   map_of (fold count_edge tos deg) n
     = (if n \<in> set tos then map_option (\<lambda>d. d + 1) (map_of deg n) else map_of deg n)"
  by (induction tos arbitrary: deg) (auto simp: count_edge_map_of)

lemma count_entry_map_of:
  "distinct (snd entry) \<Longrightarrow>
   map_of (count_entry entry deg) n
     = (if map_has deg (fst entry) \<and> n \<in> set (snd entry)
        then map_option (\<lambda>d. d + 1) (map_of deg n) else map_of deg n)"
  by (auto simp: count_entry_def fold_count_edge_map_of)

lemma count_entry_map_has:
  "distinct (snd entry) \<Longrightarrow> map_has (count_entry entry deg) k = map_has deg k"
  by (auto simp: map_has_def count_entry_map_of)

lemma fold_count_entry_map_of:
  "\<forall>entry \<in> set edges. distinct (snd entry) \<Longrightarrow>
   map_of (fold count_entry edges deg) n
     = map_option (\<lambda>d. d + int (sum_list (map (\<lambda>entry. if map_has deg (fst entry) \<and> n \<in> set (snd entry) then 1 else 0) edges)))
         (map_of deg n)"
proof (induction edges arbitrary: deg)
  case Nil
  then show ?case by (simp add: option.map_ident)
next
  case (Cons e es)
  have "map_of (fold count_entry (e # es) deg) n
        = map_of (fold count_entry es (count_entry e deg)) n" by simp
  also have "\<dots> = map_option (\<lambda>d. d + int (sum_list (map (\<lambda>entry. if map_has (count_entry e deg) (fst entry) \<and> n \<in> set (snd entry) then 1 else 0) es)))
         (map_of (count_entry e deg) n)"
    using Cons.IH [of "count_entry e deg"] Cons.prems by simp
  finally show ?case
    using Cons.prems by (cases "map_of deg n") (simp_all add: count_entry_map_has count_entry_map_of)
qed

lemma fold_set_zero_map_has:
  "map_has (fold (\<lambda>node m. AList.update node (0::int) m) nodes []) k = (k \<in> set nodes)"
  by (simp add: map_has_def fold_set_zero_map_of)

lemma init_degrees_map_of:
  assumes "\<forall>entry \<in> set edges. distinct (snd entry)"
  shows "map_of (init_degrees nodes edges) n
           = (if n \<in> set nodes then Some (int (weight nodes edges [] n)) else None)"
  unfolding init_degrees_def weight_def
  by (simp add: fold_count_entry_map_of [OF assms] fold_set_zero_map_of fold_set_zero_map_has)


lemma relax_map_of:
  "map_of (fst (relax t (deg, q))) n
     = (if n = t then map_option (\<lambda>d. d - 1) (map_of deg n) else map_of deg n)"
  by (auto simp: map_has_def degree_or_zero_def update_conv' Let_def)

lemma relax_queue:
  "snd (relax t (deg, q)) = q @ (if map_of deg t = Some 1 then [t] else [])"
  by (auto simp: map_has_def degree_or_zero_def Let_def)

lemma fold_relax_distinct:
  "distinct tos \<Longrightarrow>
   (\<forall>n. map_of (fst (fold relax tos (deg, q))) n
          = (if n \<in> set tos then map_option (\<lambda>d. d - 1) (map_of deg n) else map_of deg n))
   \<and> snd (fold relax tos (deg, q)) = q @ filter (\<lambda>t. map_of deg t = Some 1) tos"
proof (induction tos arbitrary: deg q)
  case Nil
  then show ?case by simp
next
  case (Cons t ts)
  obtain d1 q1 where r: "relax t (deg, q) = (d1, q1)" by (cases "relax t (deg, q)")
  have d1: "\<And>n. map_of d1 n = (if n = t then map_option (\<lambda>d. d - 1) (map_of deg n) else map_of deg n)"
    using relax_map_of [of t deg q] r by simp
  have q1: "q1 = q @ (if map_of deg t = Some 1 then [t] else [])"
    using relax_queue [of t deg q] r by simp
  from Cons.prems have dts: "distinct ts" and tn: "t \<notin> set ts" by simp_all
  have f: "fold relax (t # ts) (deg, q) = fold relax ts (d1, q1)" using r by simp
  have same: "filter (\<lambda>x. map_of d1 x = Some 1) ts = filter (\<lambda>x. map_of deg x = Some 1) ts"
    using tn by (intro filter_cong) (auto simp: d1)
  from Cons.IH [OF dts, of d1 q1]
  have m: "\<And>n. map_of (fst (fold relax ts (d1, q1))) n
              = (if n \<in> set ts then map_option (\<lambda>d. d - 1) (map_of d1 n) else map_of d1 n)"
    and s: "snd (fold relax ts (d1, q1)) = q1 @ filter (\<lambda>x. map_of d1 x = Some 1) ts"
    by simp_all
  have "\<And>n. map_of (fst (fold relax ts (d1, q1))) n
          = (if n \<in> set (t # ts) then map_option (\<lambda>d. d - 1) (map_of deg n) else map_of deg n)"
    using tn by (simp add: m d1)
  moreover have "snd (fold relax ts (d1, q1)) = q @ filter (\<lambda>x. map_of deg x = Some 1) (t # ts)"
    unfolding s same by (simp add: q1)
  ultimately show ?case unfolding f by blast
qed

lemma weight_no_key:
  "node \<notin> fst ` set edges \<Longrightarrow> weight nodes edges (res @ [node]) n = weight nodes edges res n"
  unfolding weight_def
  by (induction edges) auto

lemma weight_step:
  assumes "distinct (map fst edges)" "node \<in> set nodes" "node \<notin> set res"
  shows "weight nodes edges res n
           = weight nodes edges (res @ [node]) n
             + (case map_of edges node of Some tos \<Rightarrow> if n \<in> set tos then 1 else 0 | None \<Rightarrow> 0)"
  using assms(1)
proof (induction edges)
  case Nil
  then show ?case by (simp add: weight_def)
next
  case (Cons e es)
  show ?case
  proof (cases "fst e = node")
    case True
    with Cons.prems have "node \<notin> fst ` set es" by auto
    from weight_no_key [OF this, of nodes res n] True assms(2,3) show ?thesis
      by (cases e) (simp add: weight_def)
  next
    case False
    from Cons.prems have "distinct (map fst es)" by simp
    from Cons.IH [OF this] False show ?thesis
      by (cases e) (simp add: weight_def)
  qed
qed

lemma weight_zero_entries:
  "weight nodes edges res n = 0
     \<longleftrightarrow> (\<forall>entry \<in> set edges. \<not> (fst entry \<in> set nodes \<and> fst entry \<notin> set res \<and> n \<in> set (snd entry)))"
  unfolding weight_def
  by (induction edges) auto

lemma weight_zero_iff:
  "n \<in> set nodes \<Longrightarrow>
   weight nodes edges res n = 0 \<longleftrightarrow> (\<forall>p. (p, n) \<in> edge_rel nodes edges \<longrightarrow> p \<in> set res)"
  unfolding weight_zero_entries edge_rel_def
  by fastforce


definition kahn_inv :: "string list \<Rightarrow> edge_map \<Rightarrow> string list \<Rightarrow> degree_map \<Rightarrow> string list \<Rightarrow> bool" where
  "kahn_inv nodes edges queue deg res =
     ((\<forall>n. map_of deg n = (if n \<in> set nodes then Some (int (weight nodes edges res n)) else None))
      \<and> distinct (res @ queue)
      \<and> set res \<union> set queue = {n \<in> set nodes. weight nodes edges res n = 0}
      \<and> (\<forall>c \<in> set res. \<forall>p. (p, c) \<in> edge_rel nodes edges \<longrightarrow> precedes p c res))"

definition kahn_post :: "string list \<Rightarrow> edge_map \<Rightarrow> string list \<Rightarrow> bool" where
  "kahn_post nodes edges res =
     (distinct res
      \<and> set res = {n \<in> set nodes. weight nodes edges res n = 0}
      \<and> (\<forall>c \<in> set res. \<forall>p. (p, c) \<in> edge_rel nodes edges \<longrightarrow> precedes p c res))"

lemma kahn_inv_step:
  assumes inv: "kahn_inv nodes edges (node # queue) deg res"
    and dt: "distinct tos"
    and w: "\<And>n. weight nodes edges res n
                = weight nodes edges (res @ [node]) n + (if n \<in> set tos then 1 else 0)"
  shows "kahn_inv nodes edges (snd (fold relax tos (deg, queue)))
           (fst (fold relax tos (deg, queue))) (res @ [node])"
proof -
  let ?W = "weight nodes edges res" and ?W' = "weight nodes edges (res @ [node])"
  let ?new = "filter (\<lambda>t. map_of deg t = Some 1) tos"
  from inv have deg: "\<And>n. map_of deg n = (if n \<in> set nodes then Some (int (?W n)) else None)"
    and dist: "distinct (res @ node # queue)"
    and zero: "set res \<union> set (node # queue) = {n \<in> set nodes. ?W n = 0}"
    and ord: "\<And>c p. c \<in> set res \<Longrightarrow> (p, c) \<in> edge_rel nodes edges \<Longrightarrow> precedes p c res"
    unfolding kahn_inv_def by simp_all
  from fold_relax_distinct [OF dt, of deg queue]
  have deg': "\<And>n. map_of (fst (fold relax tos (deg, queue))) n
                 = (if n \<in> set tos then map_option (\<lambda>d. d - 1) (map_of deg n) else map_of deg n)"
    and q': "snd (fold relax tos (deg, queue)) = queue @ ?new"
    by simp_all
  from zero have node_in: "node \<in> set nodes" and node_zero: "?W node = 0" by auto
  from dist have node_res: "node \<notin> set res" by simp
  have new_iff: "\<And>t. t \<in> set ?new \<longleftrightarrow> t \<in> set tos \<and> t \<in> set nodes \<and> ?W t = 1"
    by (auto simp: deg split: if_splits)
  have a: "\<forall>n. map_of (fst (fold relax tos (deg, queue))) n
            = (if n \<in> set nodes then Some (int (?W' n)) else None)"
  proof
    fix n
    show "map_of (fst (fold relax tos (deg, queue))) n
            = (if n \<in> set nodes then Some (int (?W' n)) else None)"
      using w [of n] by (simp add: deg' deg)
  qed
  have b: "distinct ((res @ [node]) @ queue @ ?new)"
  proof -
    have "set ?new \<inter> (set res \<union> set (node # queue)) = {}"
      unfolding zero using new_iff by auto
    moreover have "distinct ?new" using dt by simp
    ultimately show ?thesis using dist by auto
  qed
  have c: "set (res @ [node]) \<union> set (queue @ ?new) = {n \<in> set nodes. ?W' n = 0}"
  proof -
    have "set (res @ [node]) \<union> set (queue @ ?new) = (set res \<union> set (node # queue)) \<union> set ?new"
      by auto
    also have "\<dots> = {n \<in> set nodes. ?W n = 0} \<union> {t. t \<in> set tos \<and> t \<in> set nodes \<and> ?W t = 1}"
      unfolding zero using new_iff by auto
    also have "\<dots> = {n \<in> set nodes. ?W' n = 0}"
    proof (rule set_eqI)
      fix n
      show "n \<in> {n \<in> set nodes. ?W n = 0} \<union> {t. t \<in> set tos \<and> t \<in> set nodes \<and> ?W t = 1}
              \<longleftrightarrow> n \<in> {n \<in> set nodes. ?W' n = 0}"
        using w [of n] by (auto split: if_splits)
    qed
    finally show ?thesis .
  qed
  have d: "\<forall>c \<in> set (res @ [node]). \<forall>p. (p, c) \<in> edge_rel nodes edges \<longrightarrow> precedes p c (res @ [node])"
  proof (intro ballI allI impI)
    fix c p
    assume c: "c \<in> set (res @ [node])" and e: "(p, c) \<in> edge_rel nodes edges"
    show "precedes p c (res @ [node])"
    proof (cases "c \<in> set res")
      case True
      from precedes_append [OF ord [OF True e]] show ?thesis .
    next
      case False
      with c have cn: "c = node" by simp
      from weight_zero_iff [OF node_in, of edges res] node_zero e cn have "p \<in> set res" by blast
      from precedes_snoc [OF this node_res] cn show ?thesis by simp
    qed
  qed
  show ?thesis
    unfolding kahn_inv_def q' using a b c d by blast
qed

lemma kahn_loop_post:
  "well_formed_edges edges \<Longrightarrow> [] \<notin> set nodes \<Longrightarrow> kahn_inv nodes edges queue deg res \<Longrightarrow>
   kahn_post nodes edges (kahn_loop edges queue deg res)"
proof (induction edges queue deg res rule: kahn_loop.induct)
  case (1 edges inDegree result)
  then show ?case by (simp add: kahn_inv_def kahn_post_def)
next
  case (2 edges node queue inDegree result)
  note wf = "2.prems"(1) and ne = "2.prems"(2) and inv = "2.prems"(3)
  from inv have node_in: "node \<in> set nodes" and node_res: "node \<notin> set result"
    unfolding kahn_inv_def by auto
  with ne have nn: "node \<noteq> []" by auto
  from wf have dk: "distinct (map fst edges)" by (simp add: well_formed_edges_def)
  note ws = weight_step [OF dk node_in node_res]
  show ?case
  proof (cases "map_of edges node")
    case None
    have "kahn_inv nodes edges (snd (fold relax [] (inDegree, queue)))
           (fst (fold relax [] (inDegree, queue))) (result @ [node])"
      by (rule kahn_inv_step [OF inv]) (simp_all add: ws None)
    then have "kahn_inv nodes edges queue inDegree (result @ [node])" by simp
    from "2.IH"(1) [OF nn None wf ne this] nn None show ?thesis by simp
  next
    case (Some tos)
    then have "(node, tos) \<in> set edges" by (rule map_of_SomeD)
    with wf have dt: "distinct tos" by (auto simp: well_formed_edges_def)
    have "kahn_inv nodes edges (snd (fold relax tos (inDegree, queue)))
           (fst (fold relax tos (inDegree, queue))) (result @ [node])"
      by (rule kahn_inv_step [OF inv dt]) (simp add: ws Some)
    from "2.IH"(2) [OF nn Some wf ne this] nn Some show ?thesis by simp
  qed
qed

lemma count_edge_keys: "map fst (count_edge t deg) = map fst deg"
  by (auto simp: count_edge_def map_has_def update_keys map_of_eq_None_iff)

lemma fold_count_edge_keys: "map fst (fold count_edge tos deg) = map fst deg"
  by (induction tos arbitrary: deg) (simp_all add: count_edge_keys)

lemma count_entry_keys: "map fst (count_entry entry deg) = map fst deg"
  by (simp add: count_entry_def fold_count_edge_keys)

lemma fold_count_entry_keys: "map fst (fold count_entry edges deg) = map fst deg"
  by (induction edges arbitrary: deg) (simp_all add: count_entry_keys)

lemma fold_set_zero_distinct:
  "distinct (map fst m0) \<Longrightarrow>
   distinct (map fst (fold (\<lambda>node m. AList.update node (0::int) m) nodes m0))"
  by (induction nodes arbitrary: m0) (simp_all add: distinct_update)

lemma init_degrees_distinct: "distinct (map fst (init_degrees nodes edges))"
  unfolding init_degrees_def
  by (simp add: fold_count_entry_keys fold_set_zero_distinct)

lemma initial_queue_set:
  "distinct (map fst deg) \<Longrightarrow> set (initial_queue deg) = {n. map_of deg n = Some 0}"
  unfolding initial_queue_def by force

lemma initial_queue_distinct:
  "distinct (map fst deg) \<Longrightarrow> distinct (initial_queue deg)"
  unfolding initial_queue_def by (rule distinct_map_filter)

lemma kahn_inv_initial:
  assumes wf: "well_formed_edges edges"
  shows "kahn_inv nodes edges (initial_queue (init_degrees nodes edges)) (init_degrees nodes edges) []"
proof -
  from wf have dts: "\<forall>entry \<in> set edges. distinct (snd entry)" by (simp add: well_formed_edges_def)
  note m = init_degrees_map_of [OF dts, of nodes]
  note keys = init_degrees_distinct [of nodes edges]
  have "set (initial_queue (init_degrees nodes edges)) = {n \<in> set nodes. weight nodes edges [] n = 0}"
    unfolding initial_queue_set [OF keys] by (auto simp: m split: if_splits)
  moreover note initial_queue_distinct [OF keys]
  ultimately show ?thesis
    unfolding kahn_inv_def using m by simp
qed

lemma kahn_result_post:
  assumes "well_formed_edges edges" "[] \<notin> set nodes"
  shows "kahn_post nodes edges
           (kahn_loop edges (initial_queue (init_degrees nodes edges)) (init_degrees nodes edges) [])"
  by (rule kahn_loop_post [OF assms kahn_inv_initial [OF assms(1)]])

lemma edge_rel_finite: "finite (edge_rel nodes edges)"
proof (rule finite_subset)
  show "edge_rel nodes edges \<subseteq> set nodes \<times> set nodes" by (auto simp: edge_rel_def)
qed simp

lemma unplaced_has_unplaced_parent:
  assumes "kahn_post nodes edges res" "n \<in> set nodes" "n \<notin> set res"
  shows "\<exists>p. (p, n) \<in> edge_rel nodes edges \<and> p \<in> set nodes \<and> p \<notin> set res"
proof -
  from assms have "weight nodes edges res n \<noteq> 0" by (auto simp: kahn_post_def)
  with weight_zero_iff [OF assms(2), of edges res] obtain p
    where "(p, n) \<in> edge_rel nodes edges" "p \<notin> set res" by blast
  moreover from this(1) have "p \<in> set nodes" by (simp add: edge_rel_def)
  ultimately show ?thesis by blast
qed

lemma acyclic_all_placed:
  assumes post: "kahn_post nodes edges res" and ac: "acyclic (edge_rel nodes edges)"
  shows "set res = set nodes"
proof (rule ccontr)
  assume neq: "set res \<noteq> set nodes"
  from post have sub: "set res \<subseteq> set nodes" by (auto simp: kahn_post_def)
  with neq obtain x where x: "x \<in> set nodes - set res" by blast
  from finite_acyclic_wf [OF edge_rel_finite ac] have "wf (edge_rel nodes edges)" .
  from wfE_min [OF this x] obtain z where z: "z \<in> set nodes - set res"
    and min: "\<And>y. (y, z) \<in> edge_rel nodes edges \<Longrightarrow> y \<notin> set nodes - set res" by blast
  from unplaced_has_unplaced_parent [OF post] z min show False by blast
qed

lemma ordered_acyclic:
  assumes "\<And>p c. (p, c) \<in> r \<Longrightarrow> precedes p c xs"
  shows "acyclic r"
proof -
  have "(a, b) \<in> r\<^sup>+ \<Longrightarrow> precedes a b xs" for a b
  proof (induction rule: trancl.induct)
    case (r_into_trancl a b)
    then show ?case by (rule assms)
  next
    case (trancl_into_trancl a b c)
    from \<open>(b, c) \<in> r\<close> have "precedes b c xs" by (rule assms)
    with \<open>precedes a b xs\<close> show ?case by (rule precedes_trans)
  qed
  then have "(a, a) \<notin> r\<^sup>+" for a
    using precedes_irrefl [of a xs] by blast
  then show ?thesis
    unfolding acyclic_def by blast
qed

lemma topologicalSort_unfold:
  "topologicalSort nodes edges =
     (if length (placed_tables nodes edges) \<noteq> length nodes
      then Inl (CycleDetected (filter (\<lambda>node. node \<notin> set (placed_tables nodes edges)) nodes))
      else Inr (placed_tables nodes edges))"
  by (simp add: topologicalSort_def placed_tables_def Let_def)

lemma placed_length_iff:
  assumes "distinct nodes" "kahn_post nodes edges res"
  shows "length res = length nodes \<longleftrightarrow> set res = set nodes"
    and "length res \<le> length nodes"
proof -
  from assms(2) have d: "distinct res" and sub: "set res \<subseteq> set nodes"
    by (auto simp: kahn_post_def)
  have c: "card (set res) = length res" "card (set nodes) = length nodes"
    using d assms(1) by (simp_all add: distinct_card)
  show "length res \<le> length nodes"
    using card_mono [OF _ sub] c by simp
  show "length res = length nodes \<longleftrightarrow> set res = set nodes"
    using card_subset_eq [OF _ sub] c by auto
qed

lemma post_trancl_precedes:
  assumes "kahn_post nodes edges res" "set res = set nodes" "(p, c) \<in> (edge_rel nodes edges)\<^sup>+"
  shows "precedes p c res"
  using assms(3)
proof (induction rule: trancl.induct)
  case (r_into_trancl a b)
  then have "b \<in> set nodes" by (simp add: edge_rel_def)
  with assms(1,2) r_into_trancl show ?case by (auto simp: kahn_post_def)
next
  case (trancl_into_trancl a b c)
  then have "c \<in> set nodes" by (simp add: edge_rel_def)
  with assms(1,2) trancl_into_trancl(2) have "precedes b c res" by (auto simp: kahn_post_def)
  with trancl_into_trancl.IH show ?case by (rule precedes_trans)
qed

text \<open>
  Claim C2. For a list of distinct, non-empty table names and an edge map, the orderer
  either returns a sequence holding every input table exactly once in which every parent
  precedes every child it reaches through one edge or more, and then the edge relation is
  acyclic; or it fails, and then the edge relation has a cycle, the sequence it produced is
  shorter than the input, the error names exactly the input tables that sequence lacks,
  and each of those has a parent among them. So it fails on no acyclic input.
\<close>

theorem topologicalSort_orders_or_names_cycle:
  assumes "distinct nodes" and "[] \<notin> set nodes" and "well_formed_edges edges"
  shows "case topologicalSort nodes edges of
           Inr result \<Rightarrow>
             acyclic (edge_rel nodes edges)
             \<and> distinct result \<and> set result = set nodes \<and> length result = length nodes
             \<and> (\<forall>p c. (p, c) \<in> (edge_rel nodes edges)\<^sup>+ \<longrightarrow> precedes p c result)
         | Inl e \<Rightarrow>
             \<not> acyclic (edge_rel nodes edges)
             \<and> length (placed_tables nodes edges) < length nodes
             \<and> e = CycleDetected (filter (\<lambda>node. node \<notin> set (placed_tables nodes edges)) nodes)
             \<and> (\<forall>n \<in> set nodes - set (placed_tables nodes edges).
                   \<exists>p \<in> set nodes - set (placed_tables nodes edges). (p, n) \<in> edge_rel nodes edges)"
proof -
  let ?res = "placed_tables nodes edges"
  have post: "kahn_post nodes edges ?res"
    unfolding placed_tables_def by (rule kahn_result_post [OF assms(3,2)])
  note len = placed_length_iff [OF assms(1) post]
  show ?thesis
  proof (cases "length ?res = length nodes")
    case True
    with len have all: "set ?res = set nodes" by simp
    have ord: "\<And>p c. (p, c) \<in> (edge_rel nodes edges)\<^sup>+ \<Longrightarrow> precedes p c ?res"
      by (rule post_trancl_precedes [OF post all])
    have "acyclic (edge_rel nodes edges)"
      by (rule ordered_acyclic [of _ ?res]) (rule ord, rule r_into_trancl)
    with True all post ord show ?thesis
      by (simp add: topologicalSort_unfold kahn_post_def)
  next
    case False
    with len have neq: "set ?res \<noteq> set nodes" and lt: "length ?res < length nodes" by simp_all
    from neq acyclic_all_placed [OF post] have "\<not> acyclic (edge_rel nodes edges)" by blast
    moreover have "\<forall>n \<in> set nodes - set ?res. \<exists>p \<in> set nodes - set ?res. (p, n) \<in> edge_rel nodes edges"
      using unplaced_has_unplaced_parent [OF post] by blast
    ultimately show ?thesis using False lt
      by (simp add: topologicalSort_unfold)
  qed
qed

text \<open>
  The theorem at an acyclic chain of three tables, given children first, and at a
  two-table cycle with a table behind it.
\<close>

theorem topologicalSort_orders_or_names_cycle_witness:
  "topologicalSort [''comments'', ''posts'', ''users'']
     [(''users'', [''posts'', ''comments'']), (''posts'', [''comments''])]
     = Inr [''users'', ''posts'', ''comments'']
   \<and> acyclic (edge_rel [''comments'', ''posts'', ''users'']
        [(''users'', [''posts'', ''comments'']), (''posts'', [''comments''])])
   \<and> topologicalSort [''a'', ''b'', ''c''] [(''a'', [''b'']), (''b'', [''a'', ''c''])]
     = Inl (CycleDetected [''a'', ''b'', ''c''])
   \<and> \<not> acyclic (edge_rel [''a'', ''b'', ''c''] [(''a'', [''b'']), (''b'', [''a'', ''c''])])"
proof -
  let ?n1 = "[''comments'', ''posts'', ''users'']"
  let ?e1 = "[(''users'', [''posts'', ''comments'']), (''posts'', [''comments''])]"
  let ?n2 = "[''a'', ''b'', ''c'']"
  let ?e2 = "[(''a'', [''b'']), (''b'', [''a'', ''c''])]"
  have d1: "distinct ?n1" and ne1: "[] \<notin> set ?n1" and w1: "well_formed_edges ?e1"
    by (simp_all add: well_formed_edges_def)
  have d2: "distinct ?n2" and ne2: "[] \<notin> set ?n2" and w2: "well_formed_edges ?e2"
    by (simp_all add: well_formed_edges_def)
  have ev1: "topologicalSort ?n1 ?e1 = Inr [''users'', ''posts'', ''comments'']" by code_simp
  have ev2: "topologicalSort ?n2 ?e2 = Inl (CycleDetected [''a'', ''b'', ''c''])" by code_simp
  from topologicalSort_orders_or_names_cycle [OF d1 ne1 w1]
  have "acyclic (edge_rel ?n1 ?e1)" unfolding ev1 by simp
  moreover from topologicalSort_orders_or_names_cycle [OF d2 ne2 w2]
  have "\<not> acyclic (edge_rel ?n2 ?e2)" unfolding ev2 by simp
  ultimately show ?thesis using ev1 ev2 by blast
qed

section \<open>Properties of the insertion order of a schema\<close>

definition has_edge :: "edge_map \<Rightarrow> string \<Rightarrow> string \<Rightarrow> bool" where
  "has_edge edges p c = (\<exists>s. map_of edges p = Some s \<and> c \<in> set s)"

lemma fold_Set_of:
  "distinct acc \<Longrightarrow>
   distinct (fold (\<lambda>x acc. if x \<in> set acc then acc else acc @ [x]) xs acc)
   \<and> set (fold (\<lambda>x acc. if x \<in> set acc then acc else acc @ [x]) xs acc) = set acc \<union> set xs"
  by (induction xs arbitrary: acc) auto

lemma distinct_Set_of: "distinct (Set_of xs)"
  unfolding Set_of_def using fold_Set_of [of "[]" xs] by simp

lemma set_Set_of: "set (Set_of xs) = set xs"
  unfolding Set_of_def using fold_Set_of [of "[]" xs] by simp

lemma set_update_subset: "set (AList.update k v al) \<subseteq> insert (k, v) (set al)"
  by (induction al) auto

lemma add_edge_well_formed:
  assumes "well_formed_edges edges"
  shows "well_formed_edges (add_edge a b edges)"
proof -
  define s where "s = (case map_of edges a of Some s \<Rightarrow> s | None \<Rightarrow> [])"
  define v where "v = (if b \<in> set s then s else s @ [b])"
  have ae: "add_edge a b edges = AList.update a v edges"
    unfolding add_edge_def Let_def v_def s_def by (rule refl)
  from assms have dk: "distinct (map fst edges)"
    and dv: "\<And>entry. entry \<in> set edges \<Longrightarrow> distinct (snd entry)"
    by (auto simp: well_formed_edges_def)
  have "distinct s"
  proof (cases "map_of edges a")
    case None
    then show ?thesis by (simp add: s_def)
  next
    case (Some s')
    then have "(a, s') \<in> set edges" by (rule map_of_SomeD)
    from dv [OF this] Some show ?thesis by (simp add: s_def)
  qed
  then have v: "distinct v" by (simp add: v_def)
  have "distinct (snd entry)" if "entry \<in> set (AList.update a v edges)" for entry
  proof -
    from that set_update_subset [of a v edges] have "entry \<in> insert (a, v) (set edges)" by blast
    then have "entry = (a, v) \<or> entry \<in> set edges" by simp
    then show ?thesis
    proof
      assume "entry = (a, v)"
      with v show ?thesis by simp
    next
      assume "entry \<in> set edges"
      then show ?thesis by (rule dv)
    qed
  qed
  with distinct_update [OF dk, of a v] show ?thesis
    unfolding well_formed_edges_def ae by blast
qed

lemma add_edge_has_new: "has_edge (add_edge a b edges) a b"
  by (auto simp: has_edge_def add_edge_def Let_def update_conv' split: option.splits)

lemma add_edge_has_old: "has_edge edges p c \<Longrightarrow> has_edge (add_edge a b edges) p c"
  by (auto simp: has_edge_def add_edge_def Let_def update_conv' split: option.splits)

definition edge_step :: "string \<Rightarrow> string list \<Rightarrow> TableInfo \<Rightarrow> ForeignKeyInfo \<Rightarrow> edge_map \<Rightarrow> edge_map" where
  "edge_step schema tableNameSet table fk edges' =
     (if refSchema fk \<noteq> schema then edges'
      else if refTable fk \<notin> set tableNameSet then edges'
      else add_edge (refTable fk) (table_name table) edges')"

lemma edge_step_well_formed:
  "well_formed_edges edges \<Longrightarrow> well_formed_edges (edge_step schema ns table fk edges)"
  by (simp add: edge_step_def add_edge_well_formed)

lemma edge_step_has_old:
  "has_edge edges p c \<Longrightarrow> has_edge (edge_step schema ns table fk edges) p c"
  by (simp add: edge_step_def add_edge_has_old)

lemma fold_edge_step_well_formed:
  "well_formed_edges edges \<Longrightarrow> well_formed_edges (fold (edge_step schema ns table) fkl edges)"
  by (induction fkl arbitrary: edges) (simp_all add: edge_step_well_formed)

lemma fold_edge_step_has_old:
  "has_edge edges p c \<Longrightarrow> has_edge (fold (edge_step schema ns table) fkl edges) p c"
  by (induction fkl arbitrary: edges) (simp_all add: edge_step_has_old)

lemma fold_edge_step_has_new:
  "fk \<in> set fkl \<Longrightarrow> refSchema fk = schema \<Longrightarrow> refTable fk \<in> set ns \<Longrightarrow>
   has_edge (fold (edge_step schema ns table) fkl edges) (refTable fk) (table_name table)"
proof (induction fkl arbitrary: edges)
  case Nil
  then show ?case by simp
next
  case (Cons f fkl)
  show ?case
  proof (cases "fk = f")
    case True
    with Cons.prems have "has_edge (edge_step schema ns table f edges) (refTable fk) (table_name table)"
      by (simp add: edge_step_def add_edge_has_new)
    then show ?thesis by (simp add: fold_edge_step_has_old)
  next
    case False
    with Cons.prems have "fk \<in> set fkl" by simp
    from Cons.IH [OF this Cons.prems(2,3)] show ?thesis by simp
  qed
qed

lemma build_edges_fold:
  "build_edges schema tables =
     fold (\<lambda>table. fold (edge_step schema (Set_of (map table_name tables)) table) (fks table)) tables []"
  unfolding build_edges_def Let_def edge_step_def by (rule refl)

lemma fold_tables_well_formed:
  "well_formed_edges edges \<Longrightarrow>
   well_formed_edges (fold (\<lambda>table. fold (edge_step schema ns table) (fks table)) tbls edges)"
  by (induction tbls arbitrary: edges) (simp_all add: fold_edge_step_well_formed)

lemma fold_tables_has_old:
  "has_edge edges p c \<Longrightarrow>
   has_edge (fold (\<lambda>table. fold (edge_step schema ns table) (fks table)) tbls edges) p c"
  by (induction tbls arbitrary: edges) (simp_all add: fold_edge_step_has_old)

lemma fold_tables_has_new:
  "t \<in> set tbls \<Longrightarrow> fk \<in> set (fks t) \<Longrightarrow> refSchema fk = schema \<Longrightarrow> refTable fk \<in> set ns \<Longrightarrow>
   has_edge (fold (\<lambda>table. fold (edge_step schema ns table) (fks table)) tbls edges)
     (refTable fk) (table_name t)"
proof (induction tbls arbitrary: edges)
  case Nil
  then show ?case by simp
next
  case (Cons a tbls)
  show ?case
  proof (cases "t = a")
    case True
    from fold_edge_step_has_new [OF Cons.prems(2,3,4), of t edges] True
    have "has_edge (fold (edge_step schema ns a) (fks a) edges) (refTable fk) (table_name t)" by simp
    then show ?thesis by (simp add: fold_tables_has_old)
  next
    case False
    with Cons.prems have "t \<in> set tbls" by simp
    from Cons.IH [OF this Cons.prems(2,3,4)] show ?thesis by simp
  qed
qed

lemma build_edges_well_formed: "well_formed_edges (build_edges schema tables)"
  unfolding build_edges_fold
  by (rule fold_tables_well_formed) (simp add: well_formed_edges_def)

lemma build_edges_has_edge:
  assumes "t \<in> set tables" "fk \<in> set (fks t)" "refSchema fk = schema"
    and "refTable fk \<in> table_name ` set tables"
  shows "has_edge (build_edges schema tables) (refTable fk) (table_name t)"
  unfolding build_edges_fold
  by (rule fold_tables_has_new [OF assms(1,2,3)]) (simp add: set_Set_of assms(4))

lemma has_edge_edge_rel:
  "has_edge edges p c \<Longrightarrow> p \<in> set nodes \<Longrightarrow> c \<in> set nodes \<Longrightarrow> (p, c) \<in> edge_rel nodes edges"
  unfolding has_edge_def edge_rel_def by (auto dest: map_of_SomeD)

lemma self_edge_never_placed:
  assumes "kahn_post nodes edges res" "(n, n) \<in> edge_rel nodes edges"
  shows "n \<notin> set res"
proof
  assume "n \<in> set res"
  with assms have "precedes n n res" by (auto simp: kahn_post_def)
  then show False by (simp add: precedes_irrefl)
qed

text \<open>
  Claim C6, amended. \<^verbatim>\<open>runSeeder\<close> does not tell a self-reference from a cross-table
  edge: a foreign key of a seeded table into the table itself (same schema, nullable or
  not) becomes an edge from the table to itself, and ordering any seed set that holds
  such a table fails with the cycle error, whose list names that table.
\<close>

theorem self_reference_fails_ordering:
  assumes "t \<in> set tables" and "fk \<in> set (fks t)"
    and "refSchema fk = schema" and "refTable fk = table_name t"
    and "\<forall>table \<in> set tables. table_name table \<noteq> []"
  shows "\<exists>remaining. order_tables schema tables = Inl (CycleDetected remaining)
           \<and> table_name t \<in> set remaining"
proof -
  let ?nodes = "Set_of (map table_name tables)"
  let ?edges = "build_edges schema tables"
  let ?res = "placed_tables ?nodes ?edges"
  have wf: "well_formed_edges ?edges" by (rule build_edges_well_formed)
  have ne: "[] \<notin> set ?nodes" using assms(5) by (auto simp: set_Set_of)
  have dn: "distinct ?nodes" by (rule distinct_Set_of)
  have tn: "table_name t \<in> set ?nodes" using assms(1) by (simp add: set_Set_of)
  have post: "kahn_post ?nodes ?edges ?res"
    unfolding placed_tables_def by (rule kahn_result_post [OF wf ne])
  have "has_edge ?edges (refTable fk) (table_name t)"
    by (rule build_edges_has_edge [OF assms(1,2,3)]) (simp add: assms(1,4))
  then have "(table_name t, table_name t) \<in> edge_rel ?nodes ?edges"
    using has_edge_edge_rel [of ?edges "table_name t" "table_name t" ?nodes] tn assms(4) by simp
  from self_edge_never_placed [OF post this] have np: "table_name t \<notin> set ?res" .
  with tn have "set ?res \<noteq> set ?nodes" by blast
  with placed_length_iff(1) [OF dn post] have "length ?res \<noteq> length ?nodes" by simp
  then have "topologicalSort ?nodes ?edges
               = Inl (CycleDetected (filter (\<lambda>node. node \<notin> set ?res) ?nodes))"
    by (simp add: topologicalSort_unfold)
  moreover have "table_name t \<in> set (filter (\<lambda>node. node \<notin> set ?res) ?nodes)"
    using tn np by simp
  ultimately show ?thesis by (simp add: order_tables_def)
qed

definition employees_table :: TableInfo where
  "employees_table =
     \<lparr>table_schema = ''public'', table_name = ''employees'',
      table_columns =
        [\<lparr>column_name = ''id'', dataType = ''integer'', udtName = ''int4'', isNullable = False,
          columnDefault = None, isIdentity = True, isGenerated = False, maxLength = None,
          numericPrecision = Some 32, numericScale = Some 0\<rparr>,
         \<lparr>column_name = ''manager_id'', dataType = ''integer'', udtName = ''int4'', isNullable = True,
          columnDefault = None, isIdentity = False, isGenerated = False, maxLength = None,
          numericPrecision = Some 32, numericScale = Some 0\<rparr>],
      pkColumns = [''id''],
      fks = [\<lparr>fk_columns = [''manager_id''], refSchema = ''public'', refTable = ''employees'',
              refColumns = [''id'']\<rparr>],
      uniqueConstraints = []\<rparr>"

definition departments_table :: TableInfo where
  "departments_table =
     \<lparr>table_schema = ''public'', table_name = ''departments'',
      table_columns =
        [\<lparr>column_name = ''id'', dataType = ''integer'', udtName = ''int4'', isNullable = False,
          columnDefault = None, isIdentity = True, isGenerated = False, maxLength = None,
          numericPrecision = Some 32, numericScale = Some 0\<rparr>],
      pkColumns = [''id''],
      fks = [],
      uniqueConstraints = []\<rparr>"

text \<open>
  Claim C6 as stated fails: the seed set holding only \<^verbatim>\<open>employees\<close>, whose one foreign key
  is the nullable \<^verbatim>\<open>manager_id\<close> into \<^verbatim>\<open>employees\<close> itself, has no cross-table edge at
  all, and ordering it fails with the cycle error.
\<close>

theorem self_reference_counterexample:
  "map fk_columns (fks employees_table) = [[''manager_id'']]
   \<and> map isNullable (filter (\<lambda>column. column_name column = ''manager_id'')
         (table_columns employees_table)) = [True]
   \<and> order_tables ''public'' [employees_table] = Inl (CycleDetected [''employees''])"
  by code_simp

text \<open>
  The amended claim at a seed set of two tables, one of them referencing itself.
\<close>

theorem self_reference_fails_ordering_witness:
  "order_tables ''public'' [departments_table, employees_table] = Inl (CycleDetected [''employees''])
   \<and> (\<exists>remaining. order_tables ''public'' [departments_table, employees_table]
          = Inl (CycleDetected remaining) \<and> ''employees'' \<in> set remaining)"
proof -
  let ?fk = "\<lparr>fk_columns = [''manager_id''], refSchema = ''public'', refTable = ''employees'',
              refColumns = [''id'']\<rparr>"
  have a: "employees_table \<in> set [departments_table, employees_table]" by simp
  have b: "?fk \<in> set (fks employees_table)" by (simp add: employees_table_def)
  have c: "refSchema ?fk = ''public''" by simp
  have d: "refTable ?fk = table_name employees_table" by (simp add: employees_table_def)
  have e: "\<forall>table \<in> set [departments_table, employees_table]. table_name table \<noteq> []"
    by (simp add: employees_table_def departments_table_def)
  have ev: "order_tables ''public'' [departments_table, employees_table] = Inl (CycleDetected [''employees''])"
    by code_simp
  from self_reference_fails_ordering [OF a b c d e] ev show ?thesis
    by (simp add: employees_table_def)
qed

section \<open>Properties of seedTable's insert statements\<close>

lemma build_rows_lengths:
  "build_rows n host lib table insertColumns fkPools enums ovs constraints g = Inr (rows, constraints', g')
   \<Longrightarrow> length rows = n \<and> (\<forall>r \<in> set rows. length r = length insertColumns)"
proof (induction n arbitrary: constraints g rows constraints' g')
  case 0
  then show ?case by simp
next
  case (Suc n)
  from Suc.prems obtain rowValues c1 g1 rows1 where
    "build_rows n host lib table insertColumns fkPools enums ovs c1 g1 = Inr (rows1, constraints', g')"
    and "rows = map (array_get rowValues) [0..<length insertColumns] # rows1"
    by (auto split: sum.splits prod.splits)
  with Suc.IH [OF this(1)] show ?case by simp
qed

definition rows_statement :: "string \<Rightarrow> ColumnInfo list \<Rightarrow> statement \<Rightarrow> bool" where
  "rows_statement fullName insertColumns st =
     (\<exists>rows. st = InsertRows fullName (map (\<lambda>column. quoteIdent (column_name column)) insertColumns) rows
        \<and> list_all (\<lambda>r. length r = length insertColumns) rows)"

lemma insert_batches_statements:
  "insert_batches i target fullName host lib table insertColumns fkPools enums ovs constraints g
     = Inr (statements, constraints', g')
   \<Longrightarrow> list_all (rows_statement fullName insertColumns) statements"
proof (induction i target fullName host lib table insertColumns fkPools enums ovs constraints g
        arbitrary: statements constraints' g' rule: insert_batches.induct)
  case (1 i target fullName host lib table insertColumns fkPools enums ovs constraints g)
  show ?case
  proof (cases "i < target")
    case False
    with "1.prems" show ?thesis by (simp add: insert_batches.simps)
  next
    case True
    from "1.prems" True obtain rows c1 g1 stmts1 where
      br: "build_rows (nat \<lceil>min 100 (target - i)\<rceil>) host lib table insertColumns fkPools enums ovs
             constraints g = Inr (rows, c1, g1)"
      and ib: "insert_batches (i + 100) target fullName host lib table insertColumns fkPools enums ovs c1 g1
             = Inr (stmts1, constraints', g')"
      and st: "statements = InsertRows fullName (map (\<lambda>column. quoteIdent (column_name column)) insertColumns)
             rows # stmts1"
      by (subst (asm) insert_batches.simps) (auto simp: Let_def split: sum.splits prod.splits)
    from "1.IH" [OF True refl br refl refl ib] have "list_all (rows_statement fullName insertColumns) stmts1" .
    moreover from build_rows_lengths [OF br]
    have "rows_statement fullName insertColumns
            (InsertRows fullName (map (\<lambda>column. quoteIdent (column_name column)) insertColumns) rows)"
      by (simp add: rows_statement_def list_all_iff)
    ultimately show ?thesis by (simp add: st)
  qed
qed

definition table_fullName :: "TableInfo \<Rightarrow> string" where
  "table_fullName table = quoteIdent (table_schema table) @ ''.'' @ quoteIdent (table_name table)"

lemma seedTable_statements:
  assumes "seedTable host lib db table config enums fkPoolCache g = Inr (summary, statements, cache', g')"
  shows "list_all (\<lambda>st. (st = InsertDefaultValues (table_fullName table) \<and> insert_columns table = [])
                        \<or> rows_statement (table_fullName table) (insert_columns table) st) statements"
proof -
  from assms show ?thesis
    unfolding seedTable_def Let_def table_fullName_def
    by (auto simp: list_all_iff split: if_splits prod.splits option.splits sum.splits
             dest!: insert_batches_statements)
qed

text \<open>
  Claim C10. The insert column list of a table is its columns without those that are
  identity, are generated, or carry a column default (a non-empty default expression)
  while taking part in no foreign key; a defaulted column of a foreign key stays. Every
  statement \<^verbatim>\<open>seedTable\<close> executes either is \<^verbatim>\<open>insert ... default values\<close>, when that list
  is empty, or names exactly the columns of that list and supplies one value per listed
  column in every row.
\<close>

theorem insert_columns_exclude_server_filled:
  "set (insert_columns table)
     = {column \<in> set (table_columns table).
          \<not> isIdentity column \<and> \<not> isGenerated column
          \<and> \<not> (has_columnDefault column
                \<and> column_name column \<notin> set (concat (map fk_columns (fks table))))}
   \<and> (seedTable host lib db table config enums fkPoolCache g = Inr (summary, statements, cache', g')
        \<longrightarrow> list_all (\<lambda>st. (st = InsertDefaultValues (table_fullName table) \<and> insert_columns table = [])
                            \<or> rows_statement (table_fullName table) (insert_columns table) st)
              statements)"
proof
  show "set (insert_columns table)
     = {column \<in> set (table_columns table).
          \<not> isIdentity column \<and> \<not> isGenerated column
          \<and> \<not> (has_columnDefault column
                \<and> column_name column \<notin> set (concat (map fk_columns (fks table))))}"
    unfolding insert_columns_def Let_def by auto
  show "seedTable host lib db table config enums fkPoolCache g = Inr (summary, statements, cache', g')
        \<longrightarrow> list_all (\<lambda>st. (st = InsertDefaultValues (table_fullName table) \<and> insert_columns table = [])
                            \<or> rows_statement (table_fullName table) (insert_columns table) st)
              statements"
    using seedTable_statements by blast
qed

text \<open>
  The theorem at \<^verbatim>\<open>children\<close>: of its four columns the identity \<^verbatim>\<open>id\<close> and the defaulted
  \<^verbatim>\<open>created_at\<close> are left out, the defaulted foreign-key column \<^verbatim>\<open>parent_id\<close> is not.
\<close>

theorem insert_columns_exclude_server_filled_witness:
  "map column_name (table_columns children_table) = [''id'', ''created_at'', ''parent_id'', ''note'']
   \<and> map column_name (insert_columns children_table) = [''parent_id'', ''note'']
   \<and> seeded_statements (seedTable demo_host demo_lib parents_db children_table (demo_config 2) [] []
          (draws [1, 5, 2]))
       = Inr [InsertRows (table_fullName children_table) [quoteIdent ''parent_id'', quoteIdent ''note'']
               [[Num 2, Str ''lorem.words''], [Num 3, Str ''lorem.words'']]]
   \<and> rows_statement (table_fullName children_table) (insert_columns children_table)
        (InsertRows (table_fullName children_table) [quoteIdent ''parent_id'', quoteIdent ''note'']
               [[Num 2, Str ''lorem.words''], [Num 3, Str ''lorem.words'']])"
proof -
  let ?run = "seedTable demo_host demo_lib parents_db children_table (demo_config 2) [] [] (draws [1, 5, 2])"
  let ?st = "InsertRows (table_fullName children_table) [quoteIdent ''parent_id'', quoteIdent ''note'']
               [[Num 2, Str ''lorem.words''], [Num 3, Str ''lorem.words'']]"
  have a: "map column_name (table_columns children_table) = [''id'', ''created_at'', ''parent_id'', ''note'']"
    by code_simp
  have b: "map column_name (insert_columns children_table) = [''parent_id'', ''note'']"
    by code_simp
  have c: "seeded_statements ?run = Inr [?st]"
    by code_simp
  then obtain summary cache' g' where run: "?run = Inr (summary, [?st], cache', g')"
    by (cases ?run) (auto simp: seeded_statements_def)
  from insert_columns_exclude_server_filled
         [of children_table demo_host demo_lib parents_db "demo_config 2" "[]" "[]" "draws [1, 5, 2]"
             summary "[?st]" cache' g'] run
  have "(?st = InsertDefaultValues (table_fullName children_table) \<and> insert_columns children_table = [])
        \<or> rows_statement (table_fullName children_table) (insert_columns children_table) ?st"
    by simp
  then have "rows_statement (table_fullName children_table) (insert_columns children_table) ?st"
    by simp
  with a b c show ?thesis by blast
qed

section \<open>Properties of the command line's configuration\<close>

definition rows_inserted :: "statement \<Rightarrow> nat" where
  "rows_inserted st = (case st of InsertDefaultValues n \<Rightarrow> 1 | InsertRows n cols rows \<Rightarrow> length rows)"

lemma normalize_config_cases:
  assumes "normalize_config Number fileConfig options = Inr (config, warnings)"
  obtains m where "merged_maxRecords Number fileConfig options = Finite m"
    and "maxRecords config = (if m > 50 then 50 else m)"
    and "warnings = (if m > 50 then [''Max records capped at 50 by default.''] else [])"
  using assms
  by (auto simp: normalize_config_def Let_def split: jsnumber.splits if_splits)

lemma seed_target_le: "maxRecs \<le> 50 \<Longrightarrow> seed_target maxRecs n \<le> 50"
  by (simp add: seed_target_def)

lemma insert_batches_single:
  assumes "0 < target" "target \<le> 100"
    and "insert_batches 0 target fullName host lib table insertColumns fkPools enums ovs constraints g
           = Inr (statements, constraints', g')"
  shows "sum_list (map rows_inserted statements) = nat \<lceil>target\<rceil>"
proof -
  from assms(1,2) have m: "min 100 target = target" by simp
  from assms(2) have n: "\<not> (100 < target)" by simp
  have u2: "insert_batches 100 target fullName host lib table insertColumns fkPools enums ovs c h
              = Inr ([], c, h)" for c h
    by (subst insert_batches.simps) (simp add: n)
  have u1: "insert_batches 0 target fullName host lib table insertColumns fkPools enums ovs constraints g
        = (case build_rows (nat \<lceil>target\<rceil>) host lib table insertColumns fkPools enums ovs constraints g of
             Inl e \<Rightarrow> Inl e
           | Inr (rows, c1, g1) \<Rightarrow>
               Inr ([InsertRows fullName (map (\<lambda>column. quoteIdent (column_name column)) insertColumns) rows],
                    c1, g1))"
    by (subst insert_batches.simps) (simp add: assms(1) m u2 Let_def split: sum.splits prod.splits)
  from assms(3) obtain rows c1 g1 where
    br: "build_rows (nat \<lceil>target\<rceil>) host lib table insertColumns fkPools enums ovs constraints g
           = Inr (rows, c1, g1)"
    and st: "statements = [InsertRows fullName (map (\<lambda>column. quoteIdent (column_name column)) insertColumns) rows]"
    unfolding u1 by (auto split: sum.splits prod.splits)
  from build_rows_lengths [OF br] st show ?thesis by (simp add: rows_inserted_def)
qed

lemma seedTable_rows_inserted:
  assumes "seedTable host lib db table config enums fkPoolCache g = Inr (summary, statements, cache', g')"
    and "maxRecords config \<le> 100"
  shows "inserted summary = seed_target (maxRecords config) (existing summary)"
    and "sum_list (map rows_inserted statements) \<le> nat \<lceil>inserted summary\<rceil>"
proof -
  let ?e = "case count_rows db (table_schema table) (table_name table) of Some n \<Rightarrow> n | None \<Rightarrow> 0"
  let ?t = "seed_target (maxRecords config) ?e"
  have t100: "?t \<le> 100" using assms(2) by (simp add: seed_target_def)
  have t0: "0 \<le> ?t" by (simp add: seed_target_def)
  from assms(1) show "inserted summary = seed_target (maxRecords config) (existing summary)"
    unfolding seedTable_def Let_def
    by (auto split: if_splits prod.splits option.splits sum.splits)
  from assms(1) show "sum_list (map rows_inserted statements) \<le> nat \<lceil>inserted summary\<rceil>"
    unfolding seedTable_def Let_def
    using t100 t0
    by (auto simp: rows_inserted_def sum_list_replicate dest!: insert_batches_single [rotated 2]
             split: if_splits prod.splits option.splits sum.splits)
qed


text \<open>
  Claim C9. Whenever the command line hands a configuration to the seeder, its
  \<^verbatim>\<open>maxRecords\<close> is at most 50: the merged value, taken from the flag when given, else from
  the file, else 50, is replaced by 50 with a warning when it is larger. So the target of
  every table is at most 50, and \<^verbatim>\<open>seedTable\<close> reports and inserts at most 50 rows.
\<close>

theorem cli_target_never_exceeds_50:
  assumes "normalize_config Number fileConfig options = Inr (config, warnings)"
  shows "maxRecords config \<le> 50
     \<and> seed_target (maxRecords config) existing' \<le> 50
     \<and> (\<exists>m. merged_maxRecords Number fileConfig options = Finite m
            \<and> maxRecords config = (if 50 < m then 50 else m)
            \<and> warnings = (if 50 < m then [''Max records capped at 50 by default.''] else []))
     \<and> merged_maxRecords Number fileConfig options
           = (case option_maxRecords options of
                Some s \<Rightarrow> if s \<noteq> [] then Number s
                          else (case raw_maxRecords fileConfig of Some n \<Rightarrow> n | None \<Rightarrow> Finite 50)
              | None \<Rightarrow> (case raw_maxRecords fileConfig of Some n \<Rightarrow> n | None \<Rightarrow> Finite 50))
     \<and> (seedTable host lib db table config enums fkPoolCache g = Inr (summary, statements, cache', g')
          \<longrightarrow> inserted summary \<le> 50 \<and> sum_list (map rows_inserted statements) \<le> 50)"
proof -
  from assms obtain m where m: "merged_maxRecords Number fileConfig options = Finite m"
    and c: "maxRecords config = (if m > 50 then 50 else m)"
    and w: "warnings = (if m > 50 then [''Max records capped at 50 by default.''] else [])"
    by (rule normalize_config_cases)
  from c have le: "maxRecords config \<le> 50" by (simp split: if_splits)
  have t: "seed_target (maxRecords config) n \<le> 50" for n
    using le by (rule seed_target_le)
  have run: "inserted summary \<le> 50 \<and> sum_list (map rows_inserted statements) \<le> 50"
    if r: "seedTable host lib db table config enums fkPoolCache g = Inr (summary, statements, cache', g')"
  proof -
    from le have "maxRecords config \<le> 100" by simp
    note f = seedTable_rows_inserted [OF r this]
    from f(1) t have i: "inserted summary \<le> 50" by simp
    then have "nat \<lceil>inserted summary\<rceil> \<le> 50" by (simp add: nat_le_iff ceiling_le_iff)
    with f(2) i show ?thesis by simp
  qed
  have src: "merged_maxRecords Number fileConfig options
           = (case option_maxRecords options of
                Some s \<Rightarrow> if s \<noteq> [] then Number s
                          else (case raw_maxRecords fileConfig of Some n \<Rightarrow> n | None \<Rightarrow> Finite 50)
              | None \<Rightarrow> (case raw_maxRecords fileConfig of Some n \<Rightarrow> n | None \<Rightarrow> Finite 50))"
    by (simp add: merged_maxRecords_def cliConfig_def spread_def split: option.splits)
  from le t m c w run src show ?thesis by blast
qed

definition demo_Number :: "string \<Rightarrow> jsnumber" where
  "demo_Number s = (if s = ''100'' then Finite 100 else if s = ''7'' then Finite 7 else NaN)"

text \<open>
  The theorem at a file asking for 75 rows and a flag asking for 100.
\<close>

theorem cli_target_never_exceeds_50_witness:
  "normalize_config demo_Number
      \<lparr>raw_maxRecords = Some (Finite 75), raw_seed = None, raw_dryRun = None, raw_overrides = None\<rparr>
      \<lparr>option_maxRecords = Some ''100'', option_seed = None, option_dryRun = None\<rparr>
     = Inr (demo_config 50, [''Max records capped at 50 by default.''])
   \<and> merged_maxRecords demo_Number
      \<lparr>raw_maxRecords = Some (Finite 75), raw_seed = None, raw_dryRun = None, raw_overrides = None\<rparr>
      \<lparr>option_maxRecords = Some ''100'', option_seed = None, option_dryRun = None\<rparr> = Finite 100
   \<and> seed_target (maxRecords (demo_config 50)) 3 \<le> 50"
proof -
  let ?file = "\<lparr>raw_maxRecords = Some (Finite 75), raw_seed = None, raw_dryRun = None,
                 raw_overrides = None\<rparr>"
  let ?opts = "\<lparr>option_maxRecords = Some ''100'', option_seed = None, option_dryRun = None\<rparr>"
  have n: "normalize_config demo_Number ?file ?opts
             = Inr (demo_config 50, [''Max records capped at 50 by default.''])"
    by code_simp
  have m: "merged_maxRecords demo_Number ?file ?opts = Finite 100"
    by code_simp
  from cli_target_never_exceeds_50 [OF n, of 3] have "seed_target (maxRecords (demo_config 50)) 3 \<le> 50"
    by blast
  with n m show ?thesis by blast
qed

section \<open>Properties of decimal generation\<close>

text \<open>
  A value has at most \<open>k\<close> digits before the decimal point when its absolute value is
  below ten to the \<open>k\<close> (no such digit, for \<open>k\<close> not above zero, when it is below one):
  what a numeric column of precision \<open>p\<close> and scale \<open>s\<close> holds, with \<open>k = p - s\<close>.
  \<open>decimal_column\<close> collects the tests of \<^verbatim>\<open>generateValue\<close> that lead to the branch of
  lines 161 to 166.
\<close>

definition within_digits :: "int \<Rightarrow> rat \<Rightarrow> bool" where
  "within_digits k v = (\<bar>v\<bar> < 10 ^ nat k)"

definition decimal_column :: "faker_lib \<Rightarrow> ColumnInfo \<Rightarrow> EnumMap \<Rightarrow> OverrideSpec option \<Rightarrow> rng \<Rightarrow> bool" where
  "decimal_column lib column enums override g =
     (let dataType' = toLowerCase (dataType column)
      in override_values override = [] \<and> override_faker override = []
         \<and> \<not> startsWith (toLowerCase (udtName column)) ''_''
         \<and> possible_labels enums (udtName column) = []
         \<and> \<not> str_includes dataType' ''inet'' \<and> \<not> str_includes dataType' ''cidr''
         \<and> (fst (generateFromHints lib (column_name column) g) = None
              \<or> fst (generateFromHints lib (column_name column) g) = Some [])
         \<and> \<not> str_includes dataType' ''uuid'' \<and> \<not> str_includes dataType' ''boolean''
         \<and> \<not> str_includes dataType' ''integer'' \<and> \<not> str_includes dataType' ''bigint''
         \<and> \<not> str_includes dataType' ''smallint''
         \<and> (str_includes dataType' ''numeric'' \<or> str_includes dataType' ''decimal''))"

definition precision_of :: "ColumnInfo \<Rightarrow> int" where
  "precision_of column = (case numericPrecision column of Some p \<Rightarrow> p | None \<Rightarrow> 8)"

definition scale_of :: "ColumnInfo \<Rightarrow> int" where
  "scale_of column = (case numericScale column of Some s \<Rightarrow> s | None \<Rightarrow> 2)"

lemma number_int_range:
  assumes "lo \<le> hi" "number_int lo hi g = (n, g')"
  shows "lo \<le> n \<and> n \<le> hi"
proof -
  obtain r h where d: "draw g = (r, h)" by (cases "draw g")
  with assms(2) have n: "n = lo + int (r mod nat (hi - lo + 1))"
    by (simp add: number_int_def)
  from assms(1) have "0 < nat (hi - lo + 1)" by simp
  then have "r mod nat (hi - lo + 1) < nat (hi - lo + 1)" by (rule mod_less_divisor)
  then have "int (r mod nat (hi - lo + 1)) < hi - lo + 1" by linarith
  with n show ?thesis by simp
qed

lemma number_float_range:
  assumes "lo \<le> hi" "number_float lo hi d g = (v, g')"
  shows "of_int lo \<le> v \<and> v \<le> of_int hi"
proof -
  let ?f = "(10::int) ^ d"
  have fpos: "0 < ?f" by simp
  obtain n h where ni: "number_int (lo * ?f) (hi * ?f) g = (n, h)"
    by (cases "number_int (lo * ?f) (hi * ?f) g")
  with assms(2) have v: "v = of_int n / of_int ?f"
    by (simp add: number_float_def Let_def)
  from assms(1) fpos have "lo * ?f \<le> hi * ?f" by (simp add: mult_right_mono)
  from number_int_range [OF this ni] have "lo * ?f \<le> n" "n \<le> hi * ?f" by simp_all
  then have "(of_int (lo * ?f) :: rat) \<le> of_int n" "(of_int n :: rat) \<le> of_int (hi * ?f)"
    by (simp_all only: of_int_le_iff)
  moreover have "(0::rat) < of_int ?f" using fpos by simp
  ultimately show ?thesis
    unfolding v by (simp add: pos_le_divide_eq pos_divide_le_eq)
qed

lemma decimal_max_nonneg: "0 \<le> decimal_max p s"
proof -
  have "(1::int) \<le> 10 ^ nat (max 1 (p - s))" by simp
  then show ?thesis by (simp add: decimal_max_def)
qed

lemma generateDecimal_bound:
  assumes "generateDecimal column g = (v, g')"
  shows "\<exists>r. v = Num r \<and> 0 \<le> r \<and> r \<le> of_int (decimal_max (precision_of column) (scale_of column))
           \<and> within_digits (max 1 (precision_of column - scale_of column)) r"
proof -
  let ?mx = "decimal_max (precision_of column) (scale_of column)"
  obtain r h where nf: "number_float 0 ?mx (nat (scale_of column)) g = (r, h)"
    by (cases "number_float 0 ?mx (nat (scale_of column)) g")
  with assms have v: "v = Num r"
    by (simp add: generateDecimal_def precision_of_def scale_of_def Let_def)
  from number_float_range [OF decimal_max_nonneg nf] have r: "0 \<le> r" "r \<le> of_int ?mx" by simp_all
  have "(of_int ?mx :: rat) < 10 ^ nat (max 1 (precision_of column - scale_of column))"
    by (simp add: decimal_max_def)
  with r(2) have "r < 10 ^ nat (max 1 (precision_of column - scale_of column))"
    by (rule le_less_trans)
  with r(1) have "within_digits (max 1 (precision_of column - scale_of column)) r"
    by (simp add: within_digits_def)
  with v r show ?thesis by blast
qed

lemma generateValue_decimal:
  assumes "decimal_column lib column enums override g"
  shows "\<exists>h. generateValue lib column enums override g
           = (Inr (fst (generateDecimal column h)), snd (generateDecimal column h))"
proof -
  obtain hint h where gh: "generateFromHints lib (column_name column) g = (hint, h)"
    by (cases "generateFromHints lib (column_name column) g")
  with assms have "generateValue lib column enums override g
           = (Inr (fst (generateDecimal column h)), snd (generateDecimal column h))"
    unfolding decimal_column_def Let_def
    by (subst generateValue.simps)
       (auto simp: Let_def generateByType_def split: prod.splits)
  then show ?thesis ..
qed

text \<open>
  Claim C8, amended. The statement is about the columns for which \<^verbatim>\<open>generateValue\<close> reaches
  its decimal branch, lines 161 to 166, which \<open>decimal_column\<close> spells out: the column has
  no override (neither candidate values nor a generator path), its \<^verbatim>\<open>udtName\<close> does not
  start with an underscore, no enum labels are known for its \<^verbatim>\<open>udtName\<close>, its lower-cased
  data type contains neither \<^verbatim>\<open>inet\<close> nor \<^verbatim>\<open>cidr\<close>, the name hints produce nothing for its
  name (no pattern of \<^verbatim>\<open>NAME_HINTS\<close> matches it, or the producer returns the empty string),
  and its lower-cased data type contains \<^verbatim>\<open>numeric\<close> or \<^verbatim>\<open>decimal\<close> and none of \<^verbatim>\<open>uuid\<close>,
  \<^verbatim>\<open>boolean\<close>, \<^verbatim>\<open>integer\<close>, \<^verbatim>\<open>bigint\<close> and \<^verbatim>\<open>smallint\<close>. For such a column of precision
  \<open>p\<close> and scale \<open>s\<close> (8 and 2 where absent), with a scale that is not negative and a bound
  whose scaled value has at most 15 digits, where the source's double arithmetic is the
  exact arithmetic of the model, the value is a number between zero and ten to the
  \<open>max 1 (p - s)\<close>, minus one: it has at most \<open>max 1 (p - s)\<close> digits before the decimal
  point. That is the column's \<open>p - s\<close> when \<open>p - s\<close> is at least one; where the scale equals
  or exceeds the precision the bound is still nine.
\<close>

theorem decimal_value_within_digits:
  assumes "decimal_column lib column enums override g"
    and "generateValue lib column enums override g = (Inr v, g')"
    and "0 \<le> scale_of column"
    and "max 1 (precision_of column - scale_of column) + scale_of column \<le> 15"
  shows "\<exists>r. v = Num r \<and> 0 \<le> r
           \<and> r \<le> 10 ^ nat (max 1 (precision_of column - scale_of column)) - 1
           \<and> within_digits (max 1 (precision_of column - scale_of column)) r
           \<and> (1 \<le> precision_of column - scale_of column
                \<longrightarrow> within_digits (precision_of column - scale_of column) r)"
proof -
  from generateValue_decimal [OF assms(1)] assms(2) obtain h where
    "generateDecimal column h = (v, g')" by (auto simp: prod_eq_iff)
  from generateDecimal_bound [OF this] obtain r where r: "v = Num r" "0 \<le> r"
    "r \<le> of_int (decimal_max (precision_of column) (scale_of column))"
    "within_digits (max 1 (precision_of column - scale_of column)) r" by blast
  from r(3) have "r \<le> 10 ^ nat (max 1 (precision_of column - scale_of column)) - 1"
    by (simp add: decimal_max_def)
  moreover have "within_digits (precision_of column - scale_of column) r"
    if "1 \<le> precision_of column - scale_of column"
    using r(4) that by (simp add: max_def)
  ultimately show ?thesis using r by blast
qed


definition numeric_column :: "string \<Rightarrow> int \<Rightarrow> int \<Rightarrow> ColumnInfo" where
  "numeric_column n p s =
     (plain_column n ''numeric'' ''numeric'' False)\<lparr>numericPrecision := Some p, numericScale := Some s\<rparr>"




text \<open>
  Claim C8 as stated fails at a column declared \<^verbatim>\<open>numeric(2, 2)\<close>, which holds no digit
  before the decimal point: the value nine is generated.
\<close>

theorem decimal_value_counterexample:
  "decimal_column demo_lib (numeric_column ''ratio'' 2 2) [] None (draws [900])
   \<and> fst (generateValue demo_lib (numeric_column ''ratio'' 2 2) [] None (draws [900])) = Inr (Num 9)
   \<and> precision_of (numeric_column ''ratio'' 2 2) - scale_of (numeric_column ''ratio'' 2 2) = 0
   \<and> \<not> within_digits 0 9"
  by code_simp

text \<open>
  The amended claim at a column declared \<^verbatim>\<open>numeric(4, 2)\<close>.
\<close>

theorem decimal_value_within_digits_witness:
  "decimal_column demo_lib (numeric_column ''amount'' 4 2) [] None (draws [4242])
   \<and> fst (generateValue demo_lib (numeric_column ''amount'' 4 2) [] None (draws [4242]))
       = Inr (Num (4242 / 100))
   \<and> 0 \<le> scale_of (numeric_column ''amount'' 4 2)
   \<and> max 1 (precision_of (numeric_column ''amount'' 4 2) - scale_of (numeric_column ''amount'' 4 2))
        + scale_of (numeric_column ''amount'' 4 2) \<le> 15
   \<and> within_digits 2 (4242 / 100)"
proof -
  let ?c = "numeric_column ''amount'' 4 2"
  let ?run = "generateValue demo_lib ?c [] None (draws [4242])"
  have a: "decimal_column demo_lib ?c [] None (draws [4242])" by code_simp
  have b: "fst ?run = Inr (Num (4242 / 100))" by code_simp
  then have b': "?run = (Inr (Num (4242 / 100)), snd ?run)" by (simp add: prod_eq_iff)
  have c: "0 \<le> scale_of ?c" by code_simp
  have d: "max 1 (precision_of ?c - scale_of ?c) + scale_of ?c \<le> 15" by code_simp
  have e: "precision_of ?c - scale_of ?c = 2" by code_simp
  from decimal_value_within_digits [OF a b' c d] obtain r where
    r: "Num (4242 / 100) = Num r" and w: "within_digits (max 1 (precision_of ?c - scale_of ?c)) r"
    by blast
  from r have "r = 4242 / 100" by (simp only: jsval.inject)
  with w have "within_digits 2 (4242 / 100)" by (simp only: e) simp
  with a b c d show ?thesis by blast
qed

text \<open>
  Outside these conditions a numeric column receives no decimal at all: the name hints
  come before the type, so a \<^verbatim>\<open>numeric(4, 2)\<close> column named \<^verbatim>\<open>capacity\<close>, which the pattern
  \<^verbatim>\<open>/city/\<close> matches, receives a city name.
\<close>

lemma numeric_column_named_by_hint:
  "\<not> decimal_column demo_lib (numeric_column ''capacity'' 4 2) [] None (draws [])
   \<and> fst (generateValue demo_lib (numeric_column ''capacity'' 4 2) [] None (draws []))
       = Inr (Str ''location.city'')"
  by code_simp
section \<open>The rows seedTable inserts\<close>

text \<open>
  \<^verbatim>\<open>seedTable\<close> hands its insert columns, which are column descriptors, to
  \<^verbatim>\<open>buildUniqueConstraintSets\<close>, which looks them up by column name: no constraint set is
  ever built, \<^verbatim>\<open>buildRowValues\<close> makes its one attempt, and every inserted row is the
  sampled foreign-key tuples and one fill of the columns.
\<close>

lemma Map_of_entries_keys: "fst ` set (Map_of_entries entries) = fst ` set entries"
proof -
  have "fst ` set (fold (\<lambda>entry m. AList.update (fst entry) (snd entry) m) entries m0)
          = fst ` set entries \<union> fst ` set m0" for m0 :: "('a \<times> 'b) list"
    by (induction entries arbitrary: m0) (auto simp: dom_update)
  from this [of "[]"] show ?thesis by (simp add: Map_of_entries_def)
qed

lemma column_keyed_map_has_no_name:
  "map_of (Map_of_entries (zip (map KeyColumn cols) ns)) (KeyString c) = None"
proof -
  have "KeyString c \<notin> fst ` set (zip (map KeyColumn cols) ns)"
    by (auto dest!: set_zip_leftD)
  then show ?thesis
    by (simp add: map_of_eq_None_iff Map_of_entries_keys)
qed

lemma constraint_set_of_columns:
  "constraint_set (Map_of_entries (zip (map KeyColumn cols) ns)) constraint = None"
proof (cases "constraint_columns constraint")
  case Nil
  then show ?thesis by (simp add: constraint_set_def)
next
  case (Cons c cs)
  then show ?thesis
    by (simp add: constraint_set_def column_keyed_map_has_no_name)
qed

lemma buildUniqueConstraintSets_of_columns:
  "buildUniqueConstraintSets table (map KeyColumn cols) = []"
  by (simp add: buildUniqueConstraintSets_def Let_def List.map_filter_def constraint_set_of_columns)

lemma buildRowValues_no_constraints:
  "buildRowValues host lib table insertColumns fkPools enums ovs [] g =
     (case fill_columns lib table enums ovs (build_fkMap table)
             (fst (sample_foreign_keys fkPools (fks table) g)) [] 0 insertColumns []
             (snd (sample_foreign_keys fkPools (fks table) g)) of
        Inl e \<Rightarrow> Inl e
      | Inr (vals, g2) \<Rightarrow> Inr (vals, [], g2))"
  by (simp add: buildRowValues_def Let_def numeral_eq_Suc split: prod.splits sum.splits)

definition synthesized ::
    "faker_lib \<Rightarrow> TableInfo \<Rightarrow> ColumnInfo list \<Rightarrow> pool_map \<Rightarrow> EnumMap
     \<Rightarrow> (string \<times> OverrideSpec) list option \<Rightarrow> jsval list option list \<Rightarrow> jsval list \<Rightarrow> bool" where
  "synthesized lib table insertColumns fkPools enums ovs fkAssignments vals =
     (\<exists>g0 g1 g2. sample_foreign_keys fkPools (fks table) g0 = (fkAssignments, g1)
        \<and> fill_columns lib table enums ovs (build_fkMap table) fkAssignments [] 0 insertColumns [] g1
            = Inr (vals, g2))"

lemma buildRowValues_synthesized:
  assumes "buildRowValues host lib table insertColumns fkPools enums ovs [] g = Inr (vals, constraints', g')"
  shows "constraints' = [] \<and> (\<exists>fkAssignments. synthesized lib table insertColumns fkPools enums ovs fkAssignments vals)"
proof -
  obtain fa g1 where s: "sample_foreign_keys fkPools (fks table) g = (fa, g1)"
    by (cases "sample_foreign_keys fkPools (fks table) g")
  from assms have "constraints' = []"
    and "fill_columns lib table enums ovs (build_fkMap table) fa [] 0 insertColumns [] g1 = Inr (vals, g')"
    unfolding buildRowValues_no_constraints s by (auto split: sum.splits prod.splits)
  with s show ?thesis unfolding synthesized_def by blast
qed

definition column_value ::
    "faker_lib \<Rightarrow> TableInfo \<Rightarrow> EnumMap \<Rightarrow> (string \<times> OverrideSpec) list option
     \<Rightarrow> (string \<times> nat) list \<Rightarrow> jsval list option list \<Rightarrow> (nat \<times> jsval) list
     \<Rightarrow> nat \<Rightarrow> ColumnInfo \<Rightarrow> jsval \<Rightarrow> bool" where
  "column_value lib table enums ovs fkMap fkAssignments presetValues colIndex column v =
     (case map_of presetValues colIndex of
        Some p \<Rightarrow> v = p
      | None \<Rightarrow>
          (case map_of fkMap (column_name column) of
             Some fkIndex \<Rightarrow>
               (case fkAssignments ! fkIndex of
                  None \<Rightarrow> isNullable column \<and> v = Null
                | Some assigned \<Rightarrow>
                    v = array_get assigned
                          (indexOf (fk_columns (fks table ! fkIndex)) (column_name column)))
           | None \<Rightarrow>
               (isNullable column \<and> v = Null)
               \<or> (\<exists>g0 g1. generateValue lib column enums
                             (resolveOverride ovs (table_schema table) (table_name table)
                                (column_name column)) g0 = (Inr v, g1))))"

lemma fill_columns_step:
  assumes "fill_columns lib table enums ovs fkMap fa presets idx (column # rest) vals g = Inr (vals', g')"
  obtains v g1 where
    "fill_columns lib table enums ovs fkMap fa presets (idx + 1) rest (vals @ [v]) g1 = Inr (vals', g')"
    and "column_value lib table enums ovs fkMap fa presets idx column v"
proof (cases "map_of presets idx")
  case (Some p)
  with assms have "fill_columns lib table enums ovs fkMap fa presets (idx + 1) rest (vals @ [p]) g
                     = Inr (vals', g')" by simp
  moreover from Some have "column_value lib table enums ovs fkMap fa presets idx column p"
    by (simp add: column_value_def)
  ultimately show ?thesis by (rule that)
next
  case None
  note np = None
  show ?thesis
  proof (cases "map_of fkMap (column_name column)")
    case (Some k)
    show ?thesis
    proof (cases "fa ! k")
      case None
      with assms np Some have n: "isNullable column"
        and r: "fill_columns lib table enums ovs fkMap fa presets (idx + 1) rest (vals @ [Null]) g
                  = Inr (vals', g')"
        by (simp_all split: if_splits)
      from np Some None n have "column_value lib table enums ovs fkMap fa presets idx column Null"
        by (simp add: column_value_def)
      with r show ?thesis by (rule that)
    next
      case (Some assigned)
      let ?v = "array_get assigned (indexOf (fk_columns (fks table ! k)) (column_name column))"
      from assms np \<open>map_of fkMap (column_name column) = Some k\<close> Some
      have r: "fill_columns lib table enums ovs fkMap fa presets (idx + 1) rest (vals @ [?v]) g
                  = Inr (vals', g')"
        by (simp add: Let_def)
      from np \<open>map_of fkMap (column_name column) = Some k\<close> Some
      have "column_value lib table enums ovs fkMap fa presets idx column ?v"
        by (simp add: column_value_def)
      with r show ?thesis by (rule that)
    qed
  next
    case None
    let ?ov = "resolveOverride ovs (table_schema table) (table_name table) (column_name column)"
    obtain inject g1 where i: "(if isNullable column
                       then (let (r, g') = number_int 1 100 g in (r \<le> 15, g'))
                       else (False, g)) = (inject, g1)"
      by (cases "(if isNullable column
                       then (let (r, g') = number_int 1 100 g in (r \<le> 15, g'))
                       else (False, g))")
    show ?thesis
    proof (cases inject)
      case True
      with i have n: "isNullable column" by (auto split: if_splits)
      from assms np None i True
      have r: "fill_columns lib table enums ovs fkMap fa presets (idx + 1) rest (vals @ [Null]) g1
                  = Inr (vals', g')"
        by simp
      from np None n have "column_value lib table enums ovs fkMap fa presets idx column Null"
        by (simp add: column_value_def)
      with r show ?thesis by (rule that)
    next
      case False
      from assms np None i False obtain v g2 where
        gv: "generateValue lib column enums ?ov g1 = (Inr v, g2)"
        and r: "fill_columns lib table enums ovs fkMap fa presets (idx + 1) rest (vals @ [v]) g2
                  = Inr (vals', g')"
        by (auto split: sum.splits prod.splits)
      from np None gv have "column_value lib table enums ovs fkMap fa presets idx column v"
        unfolding column_value_def by auto
      with r show ?thesis by (rule that)
    qed
  qed
qed

lemma fill_columns_spec:
  "fill_columns lib table enums ovs fkMap fa presets idx cols vals g = Inr (vals', g') \<Longrightarrow>
   length vals' = length vals + length cols
   \<and> take (length vals) vals' = vals
   \<and> (\<forall>j < length cols.
         column_value lib table enums ovs fkMap fa presets (idx + j) (cols ! j) (vals' ! (length vals + j)))"
proof (induction cols arbitrary: idx vals g)
  case Nil
  then show ?case by simp
next
  case (Cons column rest)
  from Cons.prems obtain v g1 where
    r: "fill_columns lib table enums ovs fkMap fa presets (idx + 1) rest (vals @ [v]) g1 = Inr (vals', g')"
    and cv: "column_value lib table enums ovs fkMap fa presets idx column v"
    by (rule fill_columns_step)
  from Cons.IH [OF r] have len: "length vals' = length vals + 1 + length rest"
    and tk: "take (length vals + 1) vals' = vals @ [v]"
    and rest: "\<And>j. j < length rest \<Longrightarrow>
         column_value lib table enums ovs fkMap fa presets (idx + 1 + j) (rest ! j)
           (vals' ! (length vals + 1 + j))"
    by simp_all
  have "take (length vals) vals' = take (length vals) (take (length vals + 1) vals')"
    by (simp add: min_def)
  also have "\<dots> = take (length vals) (vals @ [v])" by (simp only: tk)
  finally have tk0: "take (length vals) vals' = vals" by simp
  have "vals' ! length vals = take (length vals + 1) vals' ! length vals" by simp
  also have "\<dots> = v" by (simp only: tk nth_append_length)
  finally have v: "vals' ! length vals = v" .
  have "column_value lib table enums ovs fkMap fa presets (idx + j) ((column # rest) ! j)
          (vals' ! (length vals + j))" if "j < length (column # rest)" for j
  proof (cases j)
    case 0
    with cv v show ?thesis by simp
  next
    case (Suc j')
    with that have "j' < length rest" by simp
    from rest [OF this] Suc show ?thesis by simp
  qed
  with len tk0 show ?case by simp
qed








lemma helpers_arrayElement_member:
  assumes "xs \<noteq> []" "helpers_arrayElement xs g = (x, g')"
  shows "x \<in> set xs"
proof -
  obtain i h where ni: "number_int 0 (int (length xs) - 1) g = (i, h)"
    by (cases "number_int 0 (int (length xs) - 1) g")
  from assms(1) have "0 \<le> int (length xs) - 1" by (cases xs) simp_all
  from number_int_range [OF this ni] have "nat i < length xs" by linarith
  moreover from assms(2) ni have "x = xs ! nat i" by (simp add: helpers_arrayElement_def)
  ultimately show ?thesis by simp
qed


definition fk_assignment :: "pool_map \<Rightarrow> ForeignKeyInfo \<Rightarrow> jsval list option \<Rightarrow> bool" where
  "fk_assignment fkPools fk a =
     (case a of
        None \<Rightarrow> pool_of fkPools (foreignKeyPoolKey fk) = []
      | Some t \<Rightarrow> t \<in> set (pool_of fkPools (foreignKeyPoolKey fk)))"

lemma sample_foreign_keys_spec:
  "sample_foreign_keys fkPools fkl g = (fa, g') \<Longrightarrow>
   length fa = length fkl \<and> (\<forall>k < length fkl. fk_assignment fkPools (fkl ! k) (fa ! k))"
proof (induction fkl arbitrary: g fa g')
  case Nil
  then show ?case by simp
next
  case (Cons fk fkl)
  let ?pool = "pool_of fkPools (foreignKeyPoolKey fk)"
  show ?case
  proof (cases "?pool = []")
    case True
    obtain fa1 g1 where r: "sample_foreign_keys fkPools fkl g = (fa1, g1)"
      by (cases "sample_foreign_keys fkPools fkl g")
    with Cons.prems True have fa: "fa = None # fa1" by simp
    from Cons.IH [OF r] have l: "length fa1 = length fkl"
      and a: "\<And>k. k < length fkl \<Longrightarrow> fk_assignment fkPools (fkl ! k) (fa1 ! k)" by simp_all
    have "fk_assignment fkPools ((fk # fkl) ! k) (fa ! k)" if "k < length (fk # fkl)" for k
      using that a True by (cases k) (simp_all add: fa fk_assignment_def)
    with l fa show ?thesis by simp
  next
    case False
    obtain t g1 where h: "helpers_arrayElement ?pool g = (t, g1)"
      by (cases "helpers_arrayElement ?pool g")
    obtain fa1 g2 where r: "sample_foreign_keys fkPools fkl g1 = (fa1, g2)"
      by (cases "sample_foreign_keys fkPools fkl g1")
    from Cons.prems False h r have fa: "fa = Some t # fa1" by (simp add: Let_def)
    from helpers_arrayElement_member [OF False h] have t: "t \<in> set ?pool" .
    from Cons.IH [OF r] have l: "length fa1 = length fkl"
      and a: "\<And>k. k < length fkl \<Longrightarrow> fk_assignment fkPools (fkl ! k) (fa1 ! k)" by simp_all
    have "fk_assignment fkPools ((fk # fkl) ! k) (fa ! k)" if "k < length (fk # fkl)" for k
      using that a t by (cases k) (simp_all add: fa fk_assignment_def)
    with l fa show ?thesis by simp
  qed
qed



definition synthesized_row ::
    "faker_lib \<Rightarrow> TableInfo \<Rightarrow> ColumnInfo list \<Rightarrow> pool_map \<Rightarrow> EnumMap
     \<Rightarrow> (string \<times> OverrideSpec) list option \<Rightarrow> jsval list option list \<Rightarrow> jsval list \<Rightarrow> bool" where
  "synthesized_row lib table insertColumns fkPools enums ovs fa row =
     (length fa = length (fks table)
      \<and> (\<forall>k < length (fks table). fk_assignment fkPools (fks table ! k) (fa ! k))
      \<and> length row = length insertColumns
      \<and> (\<forall>j < length insertColumns.
            column_value lib table enums ovs (build_fkMap table) fa [] j (insertColumns ! j) (row ! j)))"

lemma array_get_row: "map (array_get vals) [0..<length vals] = vals"
  by (rule nth_equalityI) (simp_all add: array_get_def)

lemma synthesized_synthesized_row:
  assumes "synthesized lib table insertColumns fkPools enums ovs fa vals"
  shows "synthesized_row lib table insertColumns fkPools enums ovs fa vals"
proof -
  from assms obtain g0 g1 g2 where
    s: "sample_foreign_keys fkPools (fks table) g0 = (fa, g1)"
    and f: "fill_columns lib table enums ovs (build_fkMap table) fa [] 0 insertColumns [] g1 = Inr (vals, g2)"
    unfolding synthesized_def by blast
  from sample_foreign_keys_spec [OF s] fill_columns_spec [OF f]
  show ?thesis by (simp add: synthesized_row_def)
qed

lemma build_rows_synthesized:
  "build_rows n host lib table insertColumns fkPools enums ovs [] g = Inr (rows, constraints', g') \<Longrightarrow>
   constraints' = []
   \<and> (\<forall>row \<in> set rows. \<exists>fa. synthesized_row lib table insertColumns fkPools enums ovs fa row)"
proof (induction n arbitrary: g rows)
  case 0
  then show ?case by simp
next
  case (Suc n)
  from Suc.prems obtain vals c1 g1 rows1 where
    b: "buildRowValues host lib table insertColumns fkPools enums ovs [] g = Inr (vals, c1, g1)"
    and r: "build_rows n host lib table insertColumns fkPools enums ovs c1 g1 = Inr (rows1, constraints', g')"
    and rows: "rows = map (array_get vals) [0..<length insertColumns] # rows1"
    by (auto split: sum.splits prod.splits)
  from buildRowValues_synthesized [OF b] obtain fa where c1: "c1 = []"
    and s: "synthesized lib table insertColumns fkPools enums ovs fa vals" by blast
  from synthesized_synthesized_row [OF s]
  have sr: "synthesized_row lib table insertColumns fkPools enums ovs fa vals" .
  then have "length vals = length insertColumns" by (simp add: synthesized_row_def)
  then have "map (array_get vals) [0..<length insertColumns] = vals"
    using array_get_row [of vals] by simp
  with rows have rows': "rows = vals # rows1" by simp
  from Suc.IH [OF r [unfolded c1]] sr rows' show ?case by auto
qed


lemma buildUniquePairQueues_Nil: "buildUniquePairQueues host table fkPools [] target g = ([], g)"
  by (simp add: buildUniquePairQueues_def)

lemma loadUniqueConstraintValues_Nil: "loadUniqueConstraintValues host db table [] = []"
  by (simp add: loadUniqueConstraintValues_def)

definition loaded_pools :: "storage \<Rightarrow> TableInfo \<Rightarrow> pool_map \<Rightarrow> Config \<Rightarrow> pool_map" where
  "loaded_pools db table fkPoolCache config =
     fst (loadForeignKeyPools db table fkPoolCache (maxRecords config))"







text \<open>
  Inputs shared by the examples below: a database with no row, the table \<^verbatim>\<open>accounts\<close>
  with an identity key and a unique text column \<^verbatim>\<open>email\<close> that is not nullable, and a
  configuration with one override listing candidate values.
\<close>

definition empty_db :: storage where
  "empty_db =
     \<lparr>count_rows = (\<lambda>schema tbl. Some 0),
      select_pool = (\<lambda>schema tbl cols limit. []),
      select_columns = (\<lambda>schema tbl cols. [])\<rparr>"

definition accounts_table :: TableInfo where
  "accounts_table =
     \<lparr>table_schema = ''public'', table_name = ''accounts'',
      table_columns =
        [(plain_column ''id'' ''integer'' ''int4'' False)\<lparr>isIdentity := True\<rparr>,
         plain_column ''email'' ''text'' ''text'' False],
      pkColumns = [''id''],
      fks = [],
      uniqueConstraints = [\<lparr>constraint_name = ''accounts_email_key'', constraint_columns = [''email'']\<rparr>]\<rparr>"

definition values_config :: "rat \<Rightarrow> string \<Rightarrow> jsval list \<Rightarrow> Config" where
  "values_config n key vs =
     \<lparr>maxRecords = n, seed = 1337, dryRun = False,
      overrides = Some [(key, \<lparr>faker = None, ovalues = Some vs\<rparr>)]\<rparr>"
section \<open>Foreign-key values of the inserted rows\<close>





section \<open>Empty foreign-key pools\<close>









section \<open>Null and the columns that are not nullable\<close>











section \<open>Unique constraints\<close>

text \<open>
  Claims C1 and C5 describe the uniqueness tracker: \<^verbatim>\<open>buildUniqueConstraintSets\<close>,
  \<^verbatim>\<open>loadUniqueConstraintValues\<close> and the retry loop of \<^verbatim>\<open>buildRowValues\<close>. \<^verbatim>\<open>seedTable\<close> passes
  its insert columns, which are column descriptors, where \<^verbatim>\<open>buildUniqueConstraintSets\<close>
  expects their names; the lookup of a constraint's column name among descriptors finds
  nothing, every constraint is skipped, and \<^verbatim>\<open>seedTable\<close> works with no constraint set.
  \<open>column_names\<close> is the argument the function's signature asks for, given here to show
  what the tracker does when it receives it.
\<close>

definition taken_db :: storage where
  "taken_db =
     \<lparr>count_rows = (\<lambda>schema tbl. if tbl = ''accounts'' then Some 1 else Some 0),
      select_pool = (\<lambda>schema tbl cols limit. []),
      select_columns = (\<lambda>schema tbl cols.
         if tbl = ''accounts'' then [[(''email'', Str ''a@example.com'')]] else [])\<rparr>"

definition column_names :: "ColumnInfo list \<Rightarrow> jskey list" where
  "column_names columns = map (\<lambda>column. KeyString (column_name column)) columns"

lemma load_pool_select_columns:
  "load_pool (db\<lparr>select_columns := stored\<rparr>) limit = load_pool db limit"
  by (rule ext)+ (simp add: load_pool_def Let_def)

lemma loadForeignKeyPools_select_columns:
  "loadForeignKeyPools (db\<lparr>select_columns := stored\<rparr>) table fkPoolCache limit
     = loadForeignKeyPools db table fkPoolCache limit"
  by (simp add: loadForeignKeyPools_def load_pool_select_columns)

lemma count_rows_select_columns:
  "count_rows (db\<lparr>select_columns := stored\<rparr>) = count_rows db"
  by simp

text \<open>
  Claim C1 (the code diverges). For every table \<^verbatim>\<open>seedTable\<close> builds no constraint set,
  and what it returns and inserts does not depend on the rows the storage holds under the
  table's unique constraints: the uniqueness set is never seeded from storage and no
  candidate row is ever rejected.
\<close>

theorem stored_keys_never_consulted:
  "buildUniqueConstraintSets table (map KeyColumn (insert_columns table)) = []
   \<and> seedTable host lib (db\<lparr>select_columns := stored\<rparr>) table config enums fkPoolCache g
       = seedTable host lib db table config enums fkPoolCache g"
  unfolding seedTable_def Let_def buildUniqueConstraintSets_of_columns
    loadUniqueConstraintValues_Nil buildUniquePairQueues_Nil loadForeignKeyPools_select_columns
    count_rows_select_columns
  by simp

text \<open>
  The failing input of claim C1: \<^verbatim>\<open>accounts\<close> holds one row with the email
  \<^verbatim>\<open>a@example.com\<close>, two rows are asked for, and the override of \<^verbatim>\<open>accounts.email\<close> lists
  that one address. \<^verbatim>\<open>seedTable\<close> inserts the address a second time. Given the column
  names, the tracker builds the set of \<^verbatim>\<open>accounts_email_key\<close>, loads the stored address
  and rejects the candidate on each of its 25 attempts.
\<close>

theorem stored_keys_never_consulted_witness:
  "buildUniqueConstraintSets accounts_table (map KeyColumn (insert_columns accounts_table)) = []
   \<and> select_columns taken_db ''public'' ''accounts'' [''email''] = [[(''email'', Str ''a@example.com'')]]
   \<and> seeded_statements (seedTable demo_host demo_lib taken_db accounts_table
          (values_config 2 ''accounts.email'' [Str ''a@example.com'']) [] [] (draws []))
       = Inr [InsertRows (table_fullName accounts_table) [quoteIdent ''email''] [[Str ''a@example.com'']]]
   \<and> map set_name (buildUniqueConstraintSets accounts_table (column_names (insert_columns accounts_table)))
       = [''accounts_email_key'']
   \<and> map_sum id fst
        (buildRowValues demo_host demo_lib accounts_table (insert_columns accounts_table) [] []
           (overrides (values_config 2 ''accounts.email'' [Str ''a@example.com'']))
           (loadUniqueConstraintValues demo_host taken_db accounts_table
              (buildUniqueConstraintSets accounts_table (column_names (insert_columns accounts_table))))
           (draws []))
       = Inl (UniqueExhausted ''public'' ''accounts'' [''accounts_email_key''])"
proof -
  from stored_keys_never_consulted [of accounts_table]
  have a: "buildUniqueConstraintSets accounts_table (map KeyColumn (insert_columns accounts_table)) = []"
    by simp
  have b: "select_columns taken_db ''public'' ''accounts'' [''email''] = [[(''email'', Str ''a@example.com'')]]"
    by code_simp
  have c: "seeded_statements (seedTable demo_host demo_lib taken_db accounts_table
          (values_config 2 ''accounts.email'' [Str ''a@example.com'']) [] [] (draws []))
       = Inr [InsertRows (table_fullName accounts_table) [quoteIdent ''email''] [[Str ''a@example.com'']]]"
    by code_simp
  have d: "map set_name (buildUniqueConstraintSets accounts_table (column_names (insert_columns accounts_table)))
       = [''accounts_email_key'']"
    by code_simp
  have e: "map_sum id fst
        (buildRowValues demo_host demo_lib accounts_table (insert_columns accounts_table) [] []
           (overrides (values_config 2 ''accounts.email'' [Str ''a@example.com'']))
           (loadUniqueConstraintValues demo_host taken_db accounts_table
              (buildUniqueConstraintSets accounts_table (column_names (insert_columns accounts_table))))
           (draws []))
       = Inl (UniqueExhausted ''public'' ''accounts'' [''accounts_email_key''])"
    by code_simp
  from a b c d e show ?thesis by blast
qed

fun is_exhausted :: "error \<Rightarrow> bool" where
  "is_exhausted (UniqueExhausted s t names) = True"
| "is_exhausted _ = False"

lemma generateValue_not_exhausted:
  "generateValue lib column enums override g = (Inl e, g') \<Longrightarrow> \<not> is_exhausted e"
  "generate_elements lib n column enums h = (Inl e, h') \<Longrightarrow> \<not> is_exhausted e"
proof (induction lib column enums override g and lib n column enums h arbitrary: e g' and e h'
        rule: generateValue_generate_elements.induct)
  case (1 lib column enums override g)
  show ?case
  proof (cases "override_values override \<noteq> [] \<or> override_faker override \<noteq> []")
    case True
    with "1.prems" show ?thesis
      by (subst (asm) generateValue.simps)
         (auto split: if_splits prod.splits option.splits jsobj.splits)
  next
    case False
    then have nv: "\<not> override_values override \<noteq> []" and nf: "\<not> override_faker override \<noteq> []"
      by simp_all
    show ?thesis
    proof (cases "startsWith (toLowerCase (udtName column)) ''_''")
      case True
      obtain k g1 where k: "number_int 1 3 g = (k, g1)" by (cases "number_int 1 3 g")
      let ?c = "column\<lparr>dataType := udtToDataType (drop 1 (toLowerCase (udtName column))),
                       udtName := drop 1 (toLowerCase (udtName column))\<rparr>"
      from "1.prems" nv nf True k obtain h' where
        "generate_elements lib (nat k) ?c enums g1 = (Inl e, h')"
        by (subst (asm) generateValue.simps)
           (auto simp: Let_def split: prod.splits sum.splits)
      from "1.IH" [OF nv nf refl refl True refl refl k [symmetric] this] show ?thesis .
    next
      case False
      with "1.prems" nv nf show ?thesis
        by (subst (asm) generateValue.simps)
           (auto simp: Let_def split: if_splits prod.splits)
    qed
  qed
next
  case (2 lib column enums g)
  then show ?case by simp
next
  case (3 lib n column enums g)
  show ?case
  proof (cases "generateValue lib column enums None g")
    case (Pair r g1)
    show ?thesis
    proof (cases r)
      case (Inl e1)
      with Pair "3.prems" have "e = e1" by simp
      with "3.IH"(1) [of e1 g1] Pair Inl show ?thesis by simp
    next
      case (Inr v)
      with Pair "3.prems" obtain h2 where "generate_elements lib n column enums g1 = (Inl e, h2)"
        by (auto split: prod.splits sum.splits)
      from "3.IH"(2) [OF Pair [symmetric] Inr this] show ?thesis .
    qed
  qed
qed


lemma fill_columns_not_exhausted:
  "fill_columns lib table enums ovs fkMap fa presets idx cols vals g = Inl e \<Longrightarrow> \<not> is_exhausted e"
proof (induction cols arbitrary: idx vals g)
  case Nil
  then show ?case by simp
next
  case (Cons column rest)
  show ?case
  proof (cases "\<exists>v h. fill_columns lib table enums ovs fkMap fa presets (idx + 1) rest (vals @ [v]) h = Inl e")
    case True
    then show ?thesis using Cons.IH by blast
  next
    case False
    with Cons.prems show ?thesis
      by (auto simp: Let_def split: option.splits if_splits prod.splits sum.splits
               dest: generateValue_not_exhausted(1))
  qed
qed

lemma buildRowValues_not_exhausted:
  "buildRowValues host lib table insertColumns fkPools enums ovs [] g = Inl e \<Longrightarrow> \<not> is_exhausted e"
  unfolding buildRowValues_no_constraints
  by (auto split: sum.splits prod.splits dest: fill_columns_not_exhausted)

lemma build_rows_not_exhausted:
  "build_rows n host lib table insertColumns fkPools enums ovs [] g = Inl e \<Longrightarrow> \<not> is_exhausted e"
proof (induction n arbitrary: g)
  case 0
  then show ?case by simp
next
  case (Suc n)
  show ?case
  proof (cases "buildRowValues host lib table insertColumns fkPools enums ovs [] g")
    case (Inl e1)
    with Suc.prems have "e = e1" by simp
    with buildRowValues_not_exhausted [OF Inl] show ?thesis by simp
  next
    case (Inr r)
    obtain vals c1 g1 where r: "r = (vals, c1, g1)" by (cases r)
    from buildRowValues_synthesized [OF Inr [unfolded r]] have c1: "c1 = []" by simp
    from Suc.prems Inr r c1
    have "build_rows n host lib table insertColumns fkPools enums ovs [] g1 = Inl e"
      by (auto split: sum.splits prod.splits)
    from Suc.IH [OF this] show ?thesis .
  qed
qed

lemma insert_batches_not_exhausted:
  "insert_batches i target fullName host lib table insertColumns fkPools enums ovs constraints g = Inl e
   \<Longrightarrow> constraints = [] \<Longrightarrow> \<not> is_exhausted e"
proof (induction i target fullName host lib table insertColumns fkPools enums ovs constraints g
        rule: insert_batches.induct)
  case (1 i target fullName host lib table insertColumns fkPools enums ovs constraints g)
  show ?case
  proof (cases "i < target")
    case False
    with "1.prems" show ?thesis by (simp add: insert_batches.simps)
  next
    case True
    let ?b = "build_rows (nat \<lceil>min 100 (target - i)\<rceil>) host lib table insertColumns fkPools enums ovs
                constraints g"
    show ?thesis
    proof (cases ?b)
      case (Inl e1)
      with "1.prems"(1) True have "e = e1"
        by (subst (asm) insert_batches.simps) (simp add: Let_def)
      with build_rows_not_exhausted [OF Inl [unfolded "1.prems"(2)]] show ?thesis by simp
    next
      case (Inr r)
      obtain rows c1 g1 where r: "r = (rows, c1, g1)" by (cases r)
      from build_rows_synthesized [OF Inr [unfolded r "1.prems"(2)]] have c1: "c1 = []" by simp
      from "1.prems"(1) True Inr r
      have "insert_batches (i + 100) target fullName host lib table insertColumns fkPools enums ovs c1 g1
              = Inl e"
        by (subst (asm) insert_batches.simps) (auto simp: Let_def split: sum.splits prod.splits)
      from "1.IH" [OF True refl Inr [unfolded r] refl refl this c1] show ?thesis .
    qed
  qed
qed

lemma validate_fks_not_exhausted:
  "validate_fks table columnMap fkPools fkl = Some e \<Longrightarrow> \<not> is_exhausted e"
  by (induction fkl) (auto split: if_splits)

lemma seedTable_not_exhausted:
  assumes "seedTable host lib db table config enums fkPoolCache g = Inl e"
  shows "\<not> is_exhausted e"
proof -
  let ?e = "case count_rows db (table_schema table) (table_name table) of Some n \<Rightarrow> n | None \<Rightarrow> 0"
  let ?t = "seed_target (maxRecords config) ?e"
  let ?P = "loaded_pools db table fkPoolCache config"
  let ?F = "quoteIdent (table_schema table) @ ''.'' @ quoteIdent (table_name table)"
  from assms have "validateForeignKeyPools table ?P = Some e
      \<or> insert_batches 0 ?t ?F host lib table (insert_columns table) ?P enums (overrides config) [] g
           = Inl e"
    unfolding seedTable_def Let_def buildUniqueConstraintSets_of_columns
      loadUniqueConstraintValues_Nil buildUniquePairQueues_Nil loaded_pools_def
    by (auto split: if_splits prod.splits option.splits sum.splits)
  then show ?thesis
    using validate_fks_not_exhausted insert_batches_not_exhausted [OF _ refl]
    unfolding validateForeignKeyPools_def by blast
qed

text \<open>
  Claim C5 (the code diverges). For every input \<^verbatim>\<open>seedTable\<close> never fails with the error
  of the exhausted retries: with no constraint set \<^verbatim>\<open>buildRowValues\<close> makes its one
  attempt and accepts it.
\<close>

theorem seedTable_never_exhausts:
  "seedTable host lib db table config enums fkPoolCache g \<noteq> Inl (UniqueExhausted s t names)"
proof
  assume "seedTable host lib db table config enums fkPoolCache g = Inl (UniqueExhausted s t names)"
  from seedTable_not_exhausted [OF this] show False by simp
qed

text \<open>
  The failing input of claim C5: \<^verbatim>\<open>accounts\<close> is empty, ten rows are asked for, and the
  override of \<^verbatim>\<open>accounts.email\<close> lists three values. \<^verbatim>\<open>seedTable\<close> succeeds and inserts ten
  rows that repeat the three values. Given the set of \<^verbatim>\<open>accounts_email_key\<close>, built from
  the column names, the same batch fails at its fourth row after 25 attempts, with the
  error naming the constraint.
\<close>

theorem seedTable_never_exhausts_witness:
  "seedTable demo_host demo_lib empty_db accounts_table
       (values_config 10 ''accounts.email'' [Str ''a'', Str ''b'', Str ''c'']) [] []
       (draws [0, 1, 2, 0, 1, 2, 0, 1, 2, 0])
     \<noteq> Inl (UniqueExhausted ''public'' ''accounts'' [''accounts_email_key''])
   \<and> seeded_statements (seedTable demo_host demo_lib empty_db accounts_table
       (values_config 10 ''accounts.email'' [Str ''a'', Str ''b'', Str ''c'']) [] []
       (draws [0, 1, 2, 0, 1, 2, 0, 1, 2, 0]))
     = Inr [InsertRows (table_fullName accounts_table) [quoteIdent ''email'']
             [[Str ''a''], [Str ''b''], [Str ''c''], [Str ''a''], [Str ''b''], [Str ''c''],
              [Str ''a''], [Str ''b''], [Str ''c''], [Str ''a'']]]
   \<and> map_sum id fst
        (insert_batches 0 10 (table_fullName accounts_table) demo_host demo_lib accounts_table
           (insert_columns accounts_table) [] []
           (overrides (values_config 10 ''accounts.email'' [Str ''a'', Str ''b'', Str ''c'']))
           (buildUniqueConstraintSets accounts_table (column_names (insert_columns accounts_table)))
           (draws [0, 1, 2, 0, 1, 2, 0, 1, 2, 0]))
       = Inl (UniqueExhausted ''public'' ''accounts'' [''accounts_email_key''])"
proof -
  note a = seedTable_never_exhausts [of demo_host demo_lib empty_db accounts_table
       "values_config 10 ''accounts.email'' [Str ''a'', Str ''b'', Str ''c'']" "[]" "[]"
       "draws [0, 1, 2, 0, 1, 2, 0, 1, 2, 0]" "''public''" "''accounts''" "[''accounts_email_key'']"]
  have b: "seeded_statements (seedTable demo_host demo_lib empty_db accounts_table
       (values_config 10 ''accounts.email'' [Str ''a'', Str ''b'', Str ''c'']) [] []
       (draws [0, 1, 2, 0, 1, 2, 0, 1, 2, 0]))
     = Inr [InsertRows (table_fullName accounts_table) [quoteIdent ''email'']
             [[Str ''a''], [Str ''b''], [Str ''c''], [Str ''a''], [Str ''b''], [Str ''c''],
              [Str ''a''], [Str ''b''], [Str ''c''], [Str ''a'']]]"
    by code_simp
  have c: "map_sum id fst
        (insert_batches 0 10 (table_fullName accounts_table) demo_host demo_lib accounts_table
           (insert_columns accounts_table) [] []
           (overrides (values_config 10 ''accounts.email'' [Str ''a'', Str ''b'', Str ''c'']))
           (buildUniqueConstraintSets accounts_table (column_names (insert_columns accounts_table)))
           (draws [0, 1, 2, 0, 1, 2, 0, 1, 2, 0]))
       = Inl (UniqueExhausted ''public'' ''accounts'' [''accounts_email_key''])"
    by code_simp
  from a b c show ?thesis by blast
qed
end
